theory Spec2Isabelle
  imports Main "HOL-Library.Sublist"
begin

text \<open>
  A model of the client in \<^verbatim>\<open>engine.go\<close> and its variants: the framing of messages
  (\<^verbatim>\<open>sendJSONMessage\<close>, \<^verbatim>\<open>readResponse\<close>), the registry of cubes and links
  (\<^verbatim>\<open>globalCubeList\<close>, \<^verbatim>\<open>globalCubeLinks\<close>) with the functions that write and read
  it, and the batch functions that start goroutines. The network, \<^verbatim>\<open>json.Marshal\<close> and
  \<^verbatim>\<open>json.Unmarshal\<close> are parameters of the model.
\<close>

section \<open>Session constants\<close>

text \<open>
  The constants of \<^verbatim>\<open>engine.go\<close> (lines 13 to 17). A Go \<^verbatim>\<open>string\<close> is a sequence of
  bytes; it is modelled as a \<^typ>\<open>string\<close>, one \<^typ>\<open>char\<close> per byte.
\<close>

definition authPass :: string where
  "authPass = ''my_secure_password''"

definition delimiter :: string where
  "delimiter = ''<???DONE???---''"

section \<open>The functions of package strings that readResponse calls\<close>

text \<open>\<^verbatim>\<open>strings.HasPrefix(s, prefix)\<close>: does \<open>s\<close> begin with \<open>prefix\<close>.\<close>

fun HasPrefix :: "string \<Rightarrow> string \<Rightarrow> bool" where
  "HasPrefix s [] = True"
| "HasPrefix [] (p # ps) = False"
| "HasPrefix (c # cs) (p # ps) = (c = p \<and> HasPrefix cs ps)"

text \<open>\<^verbatim>\<open>strings.HasSuffix(s, suffix)\<close>: does \<open>s\<close> end with \<open>suffix\<close>.\<close>

definition HasSuffix :: "string \<Rightarrow> string \<Rightarrow> bool" where
  "HasSuffix s suf = HasPrefix (rev s) (rev suf)"

text \<open>\<^verbatim>\<open>strings.Contains(s, substr)\<close>: is \<open>substr\<close> within \<open>s\<close>.\<close>

fun Contains :: "string \<Rightarrow> string \<Rightarrow> bool" where
  "Contains [] sub = (sub = [])"
| "Contains (c # cs) sub = (HasPrefix (c # cs) sub \<or> Contains cs sub)"

text \<open>
  \<^verbatim>\<open>strings.ReplaceAll(s, old, new)\<close> replaces the non-overlapping instances of \<open>old\<close>,
  leftmost first. Every call of the program passes the non-empty constant \<open>delimiter\<close>
  as \<open>old\<close> and the empty string as \<open>new\<close>. (For an empty \<open>old\<close> Go inserts \<open>new\<close>
  around every UTF-8 sequence, which is the identity when \<open>new\<close> is empty; the model
  returns \<open>s\<close> for an empty \<open>old\<close> and is exact there only for an empty \<open>new\<close>.)
\<close>

function ReplaceAll :: "string \<Rightarrow> string \<Rightarrow> string \<Rightarrow> string" where
  "ReplaceAll [] old new = []"
| "ReplaceAll (c # cs) old new =
     (if old \<noteq> [] \<and> HasPrefix (c # cs) old
      then new @ ReplaceAll (drop (length old) (c # cs)) old new
      else c # ReplaceAll cs old new)"
  by pat_completeness auto
termination
  by (relation "measure (\<lambda>(s, old, new). length s)") auto

text \<open>
  \<^verbatim>\<open>strings.TrimSpace(s)\<close> removes all leading and trailing white space, as defined by
  Unicode. On bytes: a leading (trailing) white space rune is a prefix (suffix) that is
  the UTF-8 encoding of one of the code points with the White_Space property:
  U+0009 to U+000D, U+0020, U+0085, U+00A0, U+1680, U+2000 to U+200A, U+2028, U+2029,
  U+202F, U+205F, U+3000.
\<close>

definition spaceRunes :: "string list" where
  "spaceRunes =
     [[CHR 0x09], [CHR 0x0A], [CHR 0x0B], [CHR 0x0C], [CHR 0x0D], [CHR 0x20],
      [CHR 0xC2, CHR 0x85], [CHR 0xC2, CHR 0xA0],
      [CHR 0xE1, CHR 0x9A, CHR 0x80],
      [CHR 0xE2, CHR 0x80, CHR 0x80], [CHR 0xE2, CHR 0x80, CHR 0x81],
      [CHR 0xE2, CHR 0x80, CHR 0x82], [CHR 0xE2, CHR 0x80, CHR 0x83],
      [CHR 0xE2, CHR 0x80, CHR 0x84], [CHR 0xE2, CHR 0x80, CHR 0x85],
      [CHR 0xE2, CHR 0x80, CHR 0x86], [CHR 0xE2, CHR 0x80, CHR 0x87],
      [CHR 0xE2, CHR 0x80, CHR 0x88], [CHR 0xE2, CHR 0x80, CHR 0x89],
      [CHR 0xE2, CHR 0x80, CHR 0x8A],
      [CHR 0xE2, CHR 0x80, CHR 0xA8], [CHR 0xE2, CHR 0x80, CHR 0xA9],
      [CHR 0xE2, CHR 0x80, CHR 0xAF], [CHR 0xE2, CHR 0x81, CHR 0x9F],
      [CHR 0xE3, CHR 0x80, CHR 0x80]]"

text \<open>The encoded white space rune that \<open>s\<close> begins with, if there is one.\<close>

definition leadingSpace :: "string \<Rightarrow> string option" where
  "leadingSpace s = find (\<lambda>r. HasPrefix s r) spaceRunes"

definition trailingSpace :: "string \<Rightarrow> string option" where
  "trailingSpace s = find (\<lambda>r. HasSuffix s r) spaceRunes"

function TrimLeft :: "string \<Rightarrow> string" where
  "TrimLeft s =
     (case leadingSpace s of
        None \<Rightarrow> s
      | Some r \<Rightarrow>
          if length r = 0 \<or> length s < length r then s
          else TrimLeft (drop (length r) s))"
  by pat_completeness auto
termination
  by (relation "measure length") (auto simp: neq_Nil_conv)

function TrimRight :: "string \<Rightarrow> string" where
  "TrimRight s =
     (case trailingSpace s of
        None \<Rightarrow> s
      | Some r \<Rightarrow>
          if length r = 0 \<or> length s < length r then s
          else TrimRight (take (length s - length r) s))"
  by pat_completeness auto
termination
  by (relation "measure length") (auto simp: neq_Nil_conv)

definition TrimSpace :: "string \<Rightarrow> string" where
  "TrimSpace s = TrimRight (TrimLeft s)"

declare ReplaceAll.simps [simp del] TrimLeft.simps [simp del] TrimRight.simps [simp del]

section \<open>Connections\<close>

text \<open>
  The values of Go's \<^verbatim>\<open>error\<close> interface that the program can meet: a failed
  \<^verbatim>\<open>net.Dial\<close>, a failed \<^verbatim>\<open>conn.Write\<close>, a read that fails because the stream ended or
  the read deadline elapsed, and a failed \<^verbatim>\<open>json.Marshal\<close>.
\<close>

datatype error = ConnectFailure | WriteFailure | EOF | ReadTimeout | MarshalFailure

text \<open>
  A \<^verbatim>\<open>net.Conn\<close> is modelled by what the network does with it. \<open>rd\<close> lists the
  results of the successive calls of \<^verbatim>\<open>conn.Read\<close>: the bytes one call delivers, or the
  error it fails with; once the list is used up the stream has ended and every read
  fails. \<open>wr\<close> lists the results of the successive calls of \<^verbatim>\<open>conn.Write\<close> in the
  same way; once it is used up every write fails. \<open>sent\<close> collects the data of the
  writes that succeeded.
\<close>

datatype read_result = Chunk string | Failed error

record Conn =
  rd :: "read_result list"
  wr :: "error option list"
  sent :: "string list"

definition Read :: "Conn \<Rightarrow> read_result \<times> Conn" where
  "Read c = (case rd c of [] \<Rightarrow> (Failed EOF, c) | r # rs \<Rightarrow> (r, c\<lparr>rd := rs\<rparr>))"

definition Write :: "Conn \<Rightarrow> string \<Rightarrow> error option \<times> Conn" where
  "Write c data =
     (case wr c of
        [] \<Rightarrow> (Some WriteFailure, c)
      | None # ws \<Rightarrow> (None, c\<lparr>wr := ws, sent := sent c @ [data]\<rparr>)
      | Some e # ws \<Rightarrow> (Some e, c\<lparr>wr := ws\<rparr>))"

section \<open>The buffered reader\<close>

text \<open>
  \<^verbatim>\<open>bufio.Reader\<close>: the bytes read from the connection and not yet handed out, and the
  connection. \<^verbatim>\<open>ReadString(delim)\<close> reads until the first occurrence of \<open>delim\<close> and
  returns the data up to and including it; when a read fails before a delimiter is
  found it returns the data read before the error, and the error. The buffer is
  searched first, and the connection is read only when the buffer holds no delimiter.
\<close>

record Reader =
  buf :: string
  src :: Conn

function ReadString :: "Reader \<Rightarrow> char \<Rightarrow> (string \<times> error option) \<times> Reader" where
  "ReadString b delim =
     (if delim \<in> set (buf b)
      then ((takeWhile (\<lambda>c. c \<noteq> delim) (buf b) @ [delim], None),
            b\<lparr>buf := tl (dropWhile (\<lambda>c. c \<noteq> delim) (buf b))\<rparr>)
      else (case Read (src b) of
              (Failed err, c') \<Rightarrow> ((buf b, Some err), b\<lparr>buf := [], src := c'\<rparr>)
            | (Chunk d, c') \<Rightarrow> ReadString (b\<lparr>buf := buf b @ d, src := c'\<rparr>) delim))"
  by pat_completeness auto
termination
  by (relation "measure (\<lambda>(b, delim). length (rd (src b)))")
     (auto simp: Read_def split: list.splits)

text \<open>The bytes a reader still has to go through: one more than the data per read.\<close>

fun backlog :: "read_result list \<Rightarrow> nat" where
  "backlog [] = 0"
| "backlog (Chunk d # rs) = Suc (length d + backlog rs)"
| "backlog (Failed e # rs) = Suc (backlog rs)"

declare ReadString.simps [simp del]

lemma ReadString_backlog:
  "ReadString b delim = ((line, None), b') \<Longrightarrow>
     length (buf b') + backlog (rd (src b')) < length (buf b) + backlog (rd (src b))"
proof (induction b delim rule: ReadString.induct)
  case (1 b delim)
  note unfolded = "1.prems" [unfolded ReadString.simps [of b delim]]
  show ?case
  proof (cases "delim \<in> set (buf b)")
    case True
    then have "dropWhile (\<lambda>c. c \<noteq> delim) (buf b) \<noteq> []"
      by simp
    then have "length (tl (dropWhile (\<lambda>c. c \<noteq> delim) (buf b))) < length (buf b)"
      using length_dropWhile_le [of "\<lambda>c. c \<noteq> delim" "buf b"]
      by (cases "dropWhile (\<lambda>c. c \<noteq> delim) (buf b)") auto
    with True unfolded show ?thesis by auto
  next
    case False
    with unfolded "1.IH" show ?thesis
      by (auto simp: Read_def split: list.splits read_result.splits)
  qed
qed

section \<open>The codec: sendJSONMessage and readResponse\<close>

text \<open>
  \<^verbatim>\<open>json.Marshal\<close> is a function of Go's library; it is a parameter \<open>marshal\<close> of the
  model, returning the encoding or an error.
\<close>

definition sendJSONMessage :: "('m \<Rightarrow> error + string) \<Rightarrow> Conn \<Rightarrow> 'm \<Rightarrow> error option \<times> Conn" where
  "sendJSONMessage marshal c msg =
     (case marshal msg of
        Inl err \<Rightarrow> (Some err, c)
      | Inr data \<Rightarrow> Write c (data @ delimiter))"

text \<open>
  The loop of \<^verbatim>\<open>readResponse\<close>: the reader and the builder go in, the builder and the
  reader come out. A failed \<^verbatim>\<open>ReadString\<close> ends the loop and its partial line is not
  written to the builder.
\<close>

function readLoop :: "Reader \<Rightarrow> string \<Rightarrow> string \<times> Reader" where
  "readLoop reader builder =
     (case ReadString reader CHR ''-'' of
        ((line, Some err), reader') \<Rightarrow> (builder, reader')
      | ((line, None), reader') \<Rightarrow>
          (let builder' = builder @ line
           in if Contains line delimiter then (builder', reader')
              else readLoop reader' builder'))"
  by pat_completeness auto
termination
  by (relation "measure (\<lambda>(r, b). length (buf r) + backlog (rd (src r)))")
     (auto dest: ReadString_backlog [OF sym])

declare readLoop.simps [simp del]

text \<open>
  \<^verbatim>\<open>readResponse\<close> makes a new reader on the connection, runs the loop, removes the
  delimiter from what the builder holds and trims it. Its second result is always
  \<^verbatim>\<open>nil\<close>. The connection it leaves behind is returned too; the bytes still in the
  reader's buffer are lost with the reader. (\<^verbatim>\<open>SetReadDeadline\<close> is the reason why a
  read fails with \<open>ReadTimeout\<close>; the time itself is not modelled.)
\<close>

definition readResponse :: "Conn \<Rightarrow> (string \<times> error option) \<times> Conn" where
  "readResponse c =
     (let (builder, reader) = readLoop \<lparr>buf = [], src = c\<rparr> [];
          full = ReplaceAll builder delimiter []
      in ((TrimSpace full, None), src reader))"

section \<open>Commands and the registry\<close>

text \<open>
  A \<^verbatim>\<open>Message\<close> is a \<^verbatim>\<open>map[string]interface{}\<close>. The values the program puts into one
  are strings, numbers, booleans, \<^verbatim>\<open>[]float64\<close>, \<^verbatim>\<open>[][]string\<close> and
  \<^verbatim>\<open>map[string]float64\<close>. The program never computes with a \<^verbatim>\<open>float64\<close>, it only
  hands it to \<^verbatim>\<open>json.Marshal\<close>; the type of numbers is the parameter \<open>'f\<close>.
\<close>

datatype 'f jvalue =
    Str string
  | Float64 'f
  | Boolean bool
  | Float64s "'f list"
  | StringLists "string list list"
  | Float64Map "string \<rightharpoonup> 'f"

type_synonym 'f Message = "string \<rightharpoonup> 'f jvalue"

record 'f Cube =
  Name :: string
  Position :: "'f list"

record CubeLink =
  JointName :: string
  CubeA :: string
  CubeB :: string

text \<open>
  The package-level variables \<^verbatim>\<open>globalCubeList\<close> and \<^verbatim>\<open>globalCubeLinks\<close>. Each is
  written only between \<^verbatim>\<open>Lock\<close> and \<^verbatim>\<open>Unlock\<close> of its mutex, so a function that
  writes one of them does it in one atomic step, and concurrent calls take effect one
  after the other: a function of the program is a function from the state before its
  critical section to the state after it.
\<close>

record Globals =
  globalCubeList :: "string list"
  globalCubeLinks :: "CubeLink list"

text \<open>
  The result of \<^verbatim>\<open>net.Dial("tcp", serverAddr)\<close> is a parameter \<open>dial\<close> of every
  function that dials: the error, or the connection with what the network will do.
\<close>

text \<open>
  \<^verbatim>\<open>spawnCube\<close>: each \<^verbatim>\<open>return\<close> after a failure leaves the registry as it is; the
  append is the last statement. (\<^verbatim>\<open>wg.Done\<close> concerns the loop of \<^verbatim>\<open>main\<close> that
  starts the function; what is printed is not modelled.)
\<close>

definition spawnMessage :: "('f::zero) Cube \<Rightarrow> 'f Message" where
  "spawnMessage cube =
     [''type'' \<mapsto> Str ''spawn_cube'',
      ''cube_name'' \<mapsto> Str (Name cube),
      ''position'' \<mapsto> Float64s (Position cube),
      ''rotation'' \<mapsto> Float64s [0, 0, 0],
      ''is_base'' \<mapsto> Boolean True]"

definition spawnCube ::
  "(('f::zero) Message \<Rightarrow> error + string) \<Rightarrow> error + Conn \<Rightarrow> 'f Cube \<Rightarrow> Globals \<Rightarrow> Globals" where
  "spawnCube marshal dial cube g =
     (case dial of
        Inl err \<Rightarrow> g
      | Inr conn \<Rightarrow>
          (case Write conn (authPass @ delimiter) of
             (Some err, conn1) \<Rightarrow> g
           | (None, conn1) \<Rightarrow>
               (case readResponse conn1 of
                  ((resp, Some err), conn2) \<Rightarrow> g
                | ((resp, None), conn2) \<Rightarrow>
                    (case sendJSONMessage marshal conn2 (spawnMessage cube) of
                       (Some err, conn3) \<Rightarrow> g
                     | (None, conn3) \<Rightarrow>
                         (let fullCubeName = Name cube @ ''_BASE''
                          in g\<lparr>globalCubeList := globalCubeList g @ [fullCubeName]\<rparr>)))))"

text \<open>
  \<^verbatim>\<open>linkCubes\<close>: as \<^verbatim>\<open>spawnCube\<close>, but the result of the read of the answer is
  dropped (\<^verbatim>\<open>_, _ = readResponse(conn)\<close>).
\<close>

definition linkMessage :: "string \<Rightarrow> string \<Rightarrow> string \<Rightarrow> string \<Rightarrow> 'f Message" where
  "linkMessage cubeA cubeB jointType jointName =
     [''type'' \<mapsto> Str ''create_joint'',
      ''cube1'' \<mapsto> Str cubeA,
      ''cube2'' \<mapsto> Str cubeB,
      ''joint_type'' \<mapsto> Str jointType,
      ''joint_name'' \<mapsto> Str jointName]"

definition linkCubes ::
  "('f Message \<Rightarrow> error + string) \<Rightarrow> error + Conn \<Rightarrow>
     string \<Rightarrow> string \<Rightarrow> string \<Rightarrow> string \<Rightarrow> Globals \<Rightarrow> Globals" where
  "linkCubes marshal dial cubeA cubeB jointType jointName g =
     (case dial of
        Inl err \<Rightarrow> g
      | Inr conn \<Rightarrow>
          (case Write conn (authPass @ delimiter) of
             (Some err, conn1) \<Rightarrow> g
           | (None, conn1) \<Rightarrow>
               (let conn2 = snd (readResponse conn1)
                in case sendJSONMessage marshal conn2
                          (linkMessage cubeA cubeB jointType jointName) of
                     (Some err, conn3) \<Rightarrow> g
                   | (None, conn3) \<Rightarrow>
                       g\<lparr>globalCubeLinks := globalCubeLinks g @
                           [\<lparr>JointName = jointName, CubeA = cubeA, CubeB = cubeB\<rparr>]\<rparr>)))"

text \<open>
  The inner loop of \<^verbatim>\<open>linkCubeChains\<close>,
  \<^verbatim>\<open>for i := 0; i < len(chain)-1; i++\<close>, with Go's \<^verbatim>\<open>int\<close> as \<^typ>\<open>int\<close>: for the
  empty chain the bound is \<open>-1\<close> and the body never runs. \<open>links\<close> is the value of
  \<^verbatim>\<open>globalCubeLinks\<close>. Inside the loop \<open>0 \<le> i\<close> and \<open>i + 1 < len(chain)\<close>, so both
  index expressions are in range.
\<close>

function chainLoop :: "string \<Rightarrow> string list \<Rightarrow> int \<Rightarrow> CubeLink list \<Rightarrow> CubeLink list" where
  "chainLoop jointType chain i links =
     (if 0 \<le> i \<and> i < int (length chain) - 1
      then (let cubeA = chain ! nat i;
                cubeB = chain ! nat (i + 1);
                jointName = ''joint_'' @ jointType @ ''_'' @ cubeA @ ''_'' @ cubeB
            in chainLoop jointType chain (i + 1)
                 (links @ [\<lparr>JointName = jointName, CubeA = cubeA, CubeB = cubeB\<rparr>]))
      else links)"
  by pat_completeness auto
termination
  by (relation "measure (\<lambda>(jointType, chain, i, links). nat (int (length chain) - 1 - i))") auto

declare chainLoop.simps [simp del]

text \<open>The outer loop, \<^verbatim>\<open>for _, chain := range chains\<close>.\<close>

fun chainsLoop :: "string \<Rightarrow> string list list \<Rightarrow> CubeLink list \<Rightarrow> CubeLink list" where
  "chainsLoop jointType [] links = links"
| "chainsLoop jointType (chain # chains') links =
     chainsLoop jointType chains' (chainLoop jointType chain 0 links)"

definition chainsMessage :: "string list list \<Rightarrow> string \<Rightarrow> (string \<rightharpoonup> 'f) \<Rightarrow> 'f Message" where
  "chainsMessage chains' jointType jointParams =
     [''type'' \<mapsto> Str ''link_cube_chains'',
      ''chains'' \<mapsto> StringLists chains',
      ''joint_type'' \<mapsto> Str jointType,
      ''joint_params'' \<mapsto> Float64Map jointParams]"

text \<open>
  \<^verbatim>\<open>linkCubeChains\<close> returns an error, or \<^verbatim>\<open>nil\<close> after it has recorded the links.
  (The Go code wraps the error in a message with \<^verbatim>\<open>fmt.Errorf\<close>; the model returns the
  error itself.)
\<close>

definition linkCubeChains ::
  "('f Message \<Rightarrow> error + string) \<Rightarrow> error + Conn \<Rightarrow>
     string list list \<Rightarrow> string \<Rightarrow> (string \<rightharpoonup> 'f) \<Rightarrow> Globals \<Rightarrow> error option \<times> Globals" where
  "linkCubeChains marshal dial chains' jointType jointParams g =
     (case dial of
        Inl err \<Rightarrow> (Some err, g)
      | Inr conn \<Rightarrow>
          (case Write conn (authPass @ delimiter) of
             (Some err, conn1) \<Rightarrow> (Some err, g)
           | (None, conn1) \<Rightarrow>
               (case readResponse conn1 of
                  ((authResp, Some err), conn2) \<Rightarrow> (Some err, g)
                | ((authResp, None), conn2) \<Rightarrow>
                    (case sendJSONMessage marshal conn2
                            (chainsMessage chains' jointType jointParams) of
                       (Some err, conn3) \<Rightarrow> (Some err, g)
                     | (None, conn3) \<Rightarrow>
                         (case readResponse conn3 of
                            ((resp, Some err), conn4) \<Rightarrow> (Some err, g)
                          | ((resp, None), conn4) \<Rightarrow>
                              (None, g\<lparr>globalCubeLinks :=
                                 chainsLoop jointType chains' (globalCubeLinks g)\<rparr>))))))"

text \<open>
  \<^verbatim>\<open>findClosestJoint\<close> returns the joint name and prints one line; the model returns
  the name and the line printed. The two lines begin with the UTF-8 bytes of the
  symbols in the source text.
\<close>

definition foundLine :: "CubeLink \<Rightarrow> string" where
  "foundLine link =
     [CHR 0xF0, CHR 0x9F, CHR 0x94, CHR 0x8D] @ '' Found joint: '' @ JointName link @
     '' ('' @ CubeA link @ '' <-> '' @ CubeB link @ '')'' @ [CHR 0x0A]"

definition noJointLine :: "string \<Rightarrow> string" where
  "noJointLine targetCube =
     [CHR 0xE2, CHR 0x9A, CHR 0xA0, CHR 0xEF, CHR 0xB8, CHR 0x8F] @
     '' No joint found for cube: '' @ targetCube @ [CHR 0x0A]"

fun findLoop :: "CubeLink list \<Rightarrow> string \<Rightarrow> string \<times> string list" where
  "findLoop [] targetCube = ([], [noJointLine targetCube])"
| "findLoop (link # links) targetCube =
     (if CubeA link = targetCube \<or> CubeB link = targetCube
      then (JointName link, [foundLine link])
      else findLoop links targetCube)"

definition findClosestJoint :: "string \<Rightarrow> Globals \<Rightarrow> string \<times> string list" where
  "findClosestJoint targetCube g = findLoop (globalCubeLinks g) targetCube"

text \<open>
  One goroutine of \<^verbatim>\<open>despawnAllCubes\<close>. Its result is the connection as the goroutine
  leaves it, or nothing when the dial failed. The goroutine reads and writes no
  variable but its own.
\<close>

definition despawnMessage :: "string \<Rightarrow> 'f Message" where
  "despawnMessage name = [''type'' \<mapsto> Str ''despawn_cube'', ''cube_name'' \<mapsto> Str name]"

definition despawnUnit ::
  "('f Message \<Rightarrow> error + string) \<Rightarrow> error + Conn \<Rightarrow> string \<Rightarrow> Conn option" where
  "despawnUnit marshal dial name =
     (case dial of
        Inl err \<Rightarrow> None
      | Inr conn \<Rightarrow>
          (case Write conn (authPass @ delimiter) of
             (Some err, conn1) \<Rightarrow> Some conn1
           | (None, conn1) \<Rightarrow>
               (let conn2 = snd (readResponse conn1)
                in Some (snd (sendJSONMessage marshal conn2 (despawnMessage name))))))"

text \<open>
  \<^verbatim>\<open>despawnAllCubes\<close> starts one goroutine for each name in \<^verbatim>\<open>globalCubeList\<close> and
  waits for all of them. The goroutines share nothing, so what each one does to its
  connection does not depend on the interleaving; \<open>dial i\<close> is the result of the
  dial of the goroutine started for the \<open>i\<close>-th name.
\<close>

definition despawnAllCubes ::
  "('f Message \<Rightarrow> error + string) \<Rightarrow> (nat \<Rightarrow> error + Conn) \<Rightarrow> Globals \<Rightarrow> Globals \<times> Conn option list" where
  "despawnAllCubes marshal dial g =
     (g, map (\<lambda>(i, cube). despawnUnit marshal (dial i) cube) (enumerate 0 (globalCubeList g)))"

section \<open>Goroutines and the wait group\<close>

text \<open>
  A batch function starts goroutines in a loop and, where the source says so, waits
  for them with a \<^verbatim>\<open>sync.WaitGroup\<close>. A goroutine is modelled by the program point
  it is at, with the values of its variables, and a step function: one step is one
  call of the network (or one sleep); the step either leads to the next program point
  or ends the goroutine with its result. The batch function and its goroutines take
  their steps in any order.
\<close>

datatype ('u, 'r) goroutine = Running 'u | Finished 'r

text \<open>
  Where the batch function is: at the head of its loop for the item of index \<open>i\<close>,
  between \<^verbatim>\<open>wg.Add(1)\<close> and the \<^verbatim>\<open>go\<close> statement for that item, in \<^verbatim>\<open>wg.Wait()\<close>, or
  back in its caller.
\<close>

datatype position = Launching nat | Starting nat | Waiting | Back

record ('u, 'r) batch =
  at :: position
  counter :: int
  goroutines :: "('u, 'r) goroutine list"

definition start :: "('u, 'r) batch" where
  "start = \<lparr>at = Launching 0, counter = 0, goroutines = []\<rparr>"

text \<open>
  The steps of a batch function with a wait group: \<^verbatim>\<open>wg.Add(1)\<close> adds one to the
  counter, \<^verbatim>\<open>go\<close> starts the goroutine of the item at its first program point, the
  end of the loop leads to \<^verbatim>\<open>wg.Wait()\<close>, which returns when the counter is zero. A
  goroutine that ends runs its deferred \<^verbatim>\<open>wg.Done()\<close>, which takes one from the
  counter (a counter below zero would make \<^verbatim>\<open>Done\<close> panic; by \<open>barrier_inv\<close> below
  no state that can be reached has one). \<open>starts\<close> lists the first program points
  of the goroutines, one per item.
\<close>

inductive step :: "('u \<Rightarrow> 'u + 'r) \<Rightarrow> 'u list \<Rightarrow> ('u, 'r) batch \<Rightarrow> ('u, 'r) batch \<Rightarrow> bool"
  for ustep :: "'u \<Rightarrow> 'u + 'r" and starts :: "'u list" where
  add: "at s = Launching i \<Longrightarrow> i < length starts \<Longrightarrow>
        step ustep starts s (s\<lparr>at := Starting i, counter := counter s + 1\<rparr>)"
| go: "at s = Starting i \<Longrightarrow>
       step ustep starts s
         (s\<lparr>at := Launching (Suc i), goroutines := goroutines s @ [Running (starts ! i)]\<rparr>)"
| wait: "at s = Launching i \<Longrightarrow> \<not> i < length starts \<Longrightarrow>
         step ustep starts s (s\<lparr>at := Waiting\<rparr>)"
| wake: "at s = Waiting \<Longrightarrow> counter s = 0 \<Longrightarrow> step ustep starts s (s\<lparr>at := Back\<rparr>)"
| advance: "k < length (goroutines s) \<Longrightarrow> goroutines s ! k = Running u \<Longrightarrow> ustep u = Inl u' \<Longrightarrow>
        step ustep starts s (s\<lparr>goroutines := (goroutines s)[k := Running u']\<rparr>)"
| finish: "k < length (goroutines s) \<Longrightarrow> goroutines s ! k = Running u \<Longrightarrow> ustep u = Inr r \<Longrightarrow>
        step ustep starts s
          (s\<lparr>goroutines := (goroutines s)[k := Finished r], counter := counter s - 1\<rparr>)"

text \<open>
  The steps of a batch function that starts its goroutines and returns: there is no
  wait group, and the end of the loop leads back to the caller.
\<close>

inductive detached :: "('u \<Rightarrow> 'u + 'r) \<Rightarrow> 'u list \<Rightarrow> ('u, 'r) batch \<Rightarrow> ('u, 'r) batch \<Rightarrow> bool"
  for ustep :: "'u \<Rightarrow> 'u + 'r" and starts :: "'u list" where
  go: "at s = Launching i \<Longrightarrow> i < length starts \<Longrightarrow>
       detached ustep starts s
         (s\<lparr>at := Launching (Suc i), goroutines := goroutines s @ [Running (starts ! i)]\<rparr>)"
| leave: "at s = Launching i \<Longrightarrow> \<not> i < length starts \<Longrightarrow>
       detached ustep starts s (s\<lparr>at := Back\<rparr>)"
| advance: "k < length (goroutines s) \<Longrightarrow> goroutines s ! k = Running u \<Longrightarrow> ustep u = Inl u' \<Longrightarrow>
       detached ustep starts s (s\<lparr>goroutines := (goroutines s)[k := Running u']\<rparr>)"
| finish: "k < length (goroutines s) \<Longrightarrow> goroutines s ! k = Running u \<Longrightarrow> ustep u = Inr r \<Longrightarrow>
       detached ustep starts s (s\<lparr>goroutines := (goroutines s)[k := Finished r]\<rparr>)"

subsection \<open>The goroutine of unfreezeAllCubes\<close>

text \<open>
  The program points of the function literal in \<^verbatim>\<open>unfreezeAllCubes\<close>: before the
  dial, before the write of the password, before the read of the answer, before the
  command is sent. A failed dial or a failed write of the password ends the goroutine;
  the results of the read and of the send are ignored. The result of the goroutine is
  the connection as it leaves it, if it had one.
\<close>

definition unfreezeMessage :: "string \<Rightarrow> 'f Message" where
  "unfreezeMessage name =
     [''type'' \<mapsto> Str ''freeze_cube'', ''cube_name'' \<mapsto> Str name, ''freeze'' \<mapsto> Boolean False]"

datatype unfreezing =
    UnfreezeDial "error + Conn" string
  | UnfreezeAuth Conn string
  | UnfreezeRead Conn string
  | UnfreezeSend Conn string

fun unfreezeStep :: "('f Message \<Rightarrow> error + string) \<Rightarrow> unfreezing \<Rightarrow> unfreezing + Conn option" where
  "unfreezeStep marshal (UnfreezeDial dial name) =
     (case dial of Inl err \<Rightarrow> Inr None | Inr conn \<Rightarrow> Inl (UnfreezeAuth conn name))"
| "unfreezeStep marshal (UnfreezeAuth conn name) =
     (case Write conn (authPass @ delimiter) of
        (Some err, conn1) \<Rightarrow> Inr (Some conn1)
      | (None, conn1) \<Rightarrow> Inl (UnfreezeRead conn1 name))"
| "unfreezeStep marshal (UnfreezeRead conn name) =
     Inl (UnfreezeSend (snd (readResponse conn)) name)"
| "unfreezeStep marshal (UnfreezeSend conn name) =
     Inr (Some (snd (sendJSONMessage marshal conn (unfreezeMessage name))))"

definition unfreezeStarts :: "(nat \<Rightarrow> error + Conn) \<Rightarrow> Globals \<Rightarrow> unfreezing list" where
  "unfreezeStarts dial g =
     map (\<lambda>(i, cube). UnfreezeDial (dial i) cube) (enumerate 0 (globalCubeList g))"

text \<open>
  The same function literal as one function, and \<^verbatim>\<open>unfreezeAllCubes\<close> as the list of
  what each goroutine does on its own; the registry is not written.
\<close>

definition unfreezeUnit ::
  "('f Message \<Rightarrow> error + string) \<Rightarrow> error + Conn \<Rightarrow> string \<Rightarrow> Conn option" where
  "unfreezeUnit marshal dial name =
     (case dial of
        Inl err \<Rightarrow> None
      | Inr conn \<Rightarrow>
          (case Write conn (authPass @ delimiter) of
             (Some err, conn1) \<Rightarrow> Some conn1
           | (None, conn1) \<Rightarrow>
               (let conn2 = snd (readResponse conn1)
                in Some (snd (sendJSONMessage marshal conn2 (unfreezeMessage name))))))"

definition unfreezeAllCubes ::
  "('f Message \<Rightarrow> error + string) \<Rightarrow> (nat \<Rightarrow> error + Conn) \<Rightarrow> Globals \<Rightarrow> Globals \<times> Conn option list" where
  "unfreezeAllCubes marshal dial g =
     (g, map (\<lambda>(i, cube). unfreezeUnit marshal (dial i) cube) (enumerate 0 (globalCubeList g)))"

subsection \<open>The goroutine of stiffenAllJoints\<close>

text \<open>
  \<^verbatim>\<open>setJointParam\<close> sends one command on an open connection and reads the answer;
  it returns nothing, and the model returns the connection as it is afterwards.
\<close>

definition paramMessage :: "string \<Rightarrow> string \<Rightarrow> 'f \<Rightarrow> 'f Message" where
  "paramMessage jointName paramName val =
     [''type'' \<mapsto> Str ''set_joint_param'',
      ''joint_name'' \<mapsto> Str jointName,
      ''param_name'' \<mapsto> Str paramName,
      ''value'' \<mapsto> Float64 val]"

definition setJointParam ::
  "('f Message \<Rightarrow> error + string) \<Rightarrow> Conn \<Rightarrow> string \<Rightarrow> string \<Rightarrow> 'f \<Rightarrow> Conn" where
  "setJointParam marshal conn jointName paramName val =
     (case sendJSONMessage marshal conn (paramMessage jointName paramName val) of
        (Some err, conn1) \<Rightarrow> conn1
      | (None, conn1) \<Rightarrow>
          (case readResponse conn1 of
             ((resp, Some err), conn2) \<Rightarrow> conn2
           | ((resp, None), conn2) \<Rightarrow> conn2))"

text \<open>
  The map \<^verbatim>\<open>params\<close> of \<^verbatim>\<open>stiffenAllJoints\<close>. Go fixes no order for \<^verbatim>\<open>range\<close> over a
  map: the entries in the order in which the goroutine of index \<open>i\<close> meets them are
  the list \<open>order i\<close>, a parameter of the model.
\<close>

definition stiffenParams :: "string \<rightharpoonup> ('f::{zero,numeral})" where
  "stiffenParams =
     [''limit_upper'' \<mapsto> 0,
      ''limit_lower'' \<mapsto> 0,
      ''motor_enable'' \<mapsto> 1,
      ''motor_target_velocity'' \<mapsto> 0,
      ''motor_max_impulse'' \<mapsto> 1000]"

text \<open>
  The program points of the function literal in \<^verbatim>\<open>stiffenAllJoints\<close>: before the
  dial, before the write of the password, before the read of the answer, and at the
  head of the loop over the parameters, with the entries still to come.
\<close>

datatype 'f stiffening =
    StiffenDial "error + Conn" CubeLink "(string \<times> 'f) list"
  | StiffenAuth Conn CubeLink "(string \<times> 'f) list"
  | StiffenRead Conn CubeLink "(string \<times> 'f) list"
  | StiffenParams Conn CubeLink "(string \<times> 'f) list"

fun stiffenStep ::
  "('f Message \<Rightarrow> error + string) \<Rightarrow> 'f stiffening \<Rightarrow> 'f stiffening + Conn option" where
  "stiffenStep marshal (StiffenDial dial joint ps) =
     (case dial of Inl err \<Rightarrow> Inr None | Inr conn \<Rightarrow> Inl (StiffenAuth conn joint ps))"
| "stiffenStep marshal (StiffenAuth conn joint ps) =
     (case Write conn (authPass @ delimiter) of
        (Some err, conn1) \<Rightarrow> Inr (Some conn1)
      | (None, conn1) \<Rightarrow> Inl (StiffenRead conn1 joint ps))"
| "stiffenStep marshal (StiffenRead conn joint ps) =
     (case readResponse conn of
        ((resp, Some err), conn1) \<Rightarrow> Inr (Some conn1)
      | ((resp, None), conn1) \<Rightarrow> Inl (StiffenParams conn1 joint ps))"
| "stiffenStep marshal (StiffenParams conn joint []) = Inr (Some conn)"
| "stiffenStep marshal (StiffenParams conn joint ((paramName, val) # ps)) =
     Inl (StiffenParams (setJointParam marshal conn (JointName joint) paramName val) joint ps)"

definition stiffenStarts ::
  "(nat \<Rightarrow> error + Conn) \<Rightarrow> (nat \<Rightarrow> (string \<times> 'f) list) \<Rightarrow> Globals \<Rightarrow> 'f stiffening list" where
  "stiffenStarts dial order g =
     map (\<lambda>(i, link). StiffenDial (dial i) link (order i)) (enumerate 0 (globalCubeLinks g))"

definition stiffenUnit ::
  "('f Message \<Rightarrow> error + string) \<Rightarrow> error + Conn \<Rightarrow> CubeLink \<Rightarrow> (string \<times> 'f) list \<Rightarrow> Conn option" where
  "stiffenUnit marshal dial joint ps =
     (case dial of
        Inl err \<Rightarrow> None
      | Inr conn \<Rightarrow>
          (case Write conn (authPass @ delimiter) of
             (Some err, conn1) \<Rightarrow> Some conn1
           | (None, conn1) \<Rightarrow>
               (case readResponse conn1 of
                  ((resp, Some err), conn2) \<Rightarrow> Some conn2
                | ((resp, None), conn2) \<Rightarrow>
                    Some (foldl (\<lambda>c (paramName, val).
                                   setJointParam marshal c (JointName joint) paramName val)
                            conn2 ps))))"

definition stiffenAllJoints ::
  "('f Message \<Rightarrow> error + string) \<Rightarrow> (nat \<Rightarrow> error + Conn) \<Rightarrow> (nat \<Rightarrow> (string \<times> 'f) list) \<Rightarrow>
     Globals \<Rightarrow> Globals \<times> Conn option list" where
  "stiffenAllJoints marshal dial order g =
     (g, map (\<lambda>(i, link). stiffenUnit marshal (dial i) link (order i))
           (enumerate 0 (globalCubeLinks g)))"

subsection \<open>rotateCubeJoints\<close>

text \<open>
  \<^verbatim>\<open>getJointsForCube\<close> returns the joints the server names, or \<^verbatim>\<open>nil\<close> after any
  failure. \<^verbatim>\<open>json.Unmarshal\<close> into the answer's structure is the parameter
  \<open>unmarshal\<close>, which gives the field \<^verbatim>\<open>Joints\<close>.
\<close>

definition jointsQuery :: "string \<Rightarrow> 'f Message" where
  "jointsQuery cubeName = [''type'' \<mapsto> Str ''get_joints_for_cube'', ''cube_name'' \<mapsto> Str cubeName]"

definition getJointsForCube ::
  "('f Message \<Rightarrow> error + string) \<Rightarrow> (string \<Rightarrow> error + string list) \<Rightarrow> error + Conn \<Rightarrow> string \<Rightarrow> string list" where
  "getJointsForCube marshal unmarshal dial cubeName =
     (case dial of
        Inl err \<Rightarrow> []
      | Inr conn \<Rightarrow>
          (case Write conn (authPass @ delimiter) of
             (Some err, conn1) \<Rightarrow> []
           | (None, conn1) \<Rightarrow>
               (case readResponse conn1 of
                  ((resp, Some err), conn2) \<Rightarrow> []
                | ((resp, None), conn2) \<Rightarrow>
                    (case sendJSONMessage marshal conn2 (jointsQuery cubeName) of
                       (Some err, conn3) \<Rightarrow> []
                     | (None, conn3) \<Rightarrow>
                         (case readResponse conn3 of
                            ((respRaw, Some err), conn4) \<Rightarrow> []
                          | ((respRaw, None), conn4) \<Rightarrow>
                              (case unmarshal respRaw of
                                 Inl err \<Rightarrow> []
                               | Inr joints \<Rightarrow> joints))))))"

definition rotateMessage :: "string \<Rightarrow> ('f::numeral) \<Rightarrow> 'f Message" where
  "rotateMessage jn targetVelocity =
     [''type'' \<mapsto> Str ''set_joint_params'',
      ''joint_name'' \<mapsto> Str jn,
      ''params'' \<mapsto> Float64Map
         [''motor_enable'' \<mapsto> 1,
          ''motor_target_velocity'' \<mapsto> targetVelocity,
          ''motor_max_impulse'' \<mapsto> 500]]"

text \<open>
  The program points of the function literal in \<^verbatim>\<open>rotateCubeJoints\<close>. Only a failed
  dial ends it early; every other result is ignored. The two calls of
  \<^verbatim>\<open>time.Sleep\<close> are steps that change nothing.
\<close>

datatype 'f rotating =
    RotateDial "error + Conn" string 'f
  | RotateAuth Conn string 'f
  | RotateAuthRead Conn string 'f
  | RotateDrive Conn string 'f
  | RotateDriveRead Conn string 'f
  | RotateHold Conn string 'f
  | RotateReverse Conn string 'f
  | RotateReverseRead Conn string 'f
  | RotateHoldBack Conn string 'f
  | RotateStop Conn string 'f
  | RotateStopRead Conn string 'f

fun rotateStep ::
  "(('f::{zero,numeral,uminus}) Message \<Rightarrow> error + string) \<Rightarrow> 'f rotating \<Rightarrow> 'f rotating + Conn option" where
  "rotateStep marshal (RotateDial dial jn velocity) =
     (case dial of Inl err \<Rightarrow> Inr None | Inr conn \<Rightarrow> Inl (RotateAuth conn jn velocity))"
| "rotateStep marshal (RotateAuth conn jn velocity) =
     Inl (RotateAuthRead (snd (Write conn (authPass @ delimiter))) jn velocity)"
| "rotateStep marshal (RotateAuthRead conn jn velocity) =
     Inl (RotateDrive (snd (readResponse conn)) jn velocity)"
| "rotateStep marshal (RotateDrive conn jn velocity) =
     Inl (RotateDriveRead (snd (sendJSONMessage marshal conn (rotateMessage jn velocity))) jn velocity)"
| "rotateStep marshal (RotateDriveRead conn jn velocity) =
     Inl (RotateHold (snd (readResponse conn)) jn velocity)"
| "rotateStep marshal (RotateHold conn jn velocity) =
     Inl (RotateReverse conn jn velocity)"
| "rotateStep marshal (RotateReverse conn jn velocity) =
     Inl (RotateReverseRead (snd (sendJSONMessage marshal conn (rotateMessage jn (- velocity)))) jn velocity)"
| "rotateStep marshal (RotateReverseRead conn jn velocity) =
     Inl (RotateHoldBack (snd (readResponse conn)) jn velocity)"
| "rotateStep marshal (RotateHoldBack conn jn velocity) =
     Inl (RotateStop conn jn velocity)"
| "rotateStep marshal (RotateStop conn jn velocity) =
     Inl (RotateStopRead (snd (sendJSONMessage marshal conn (rotateMessage jn 0))) jn velocity)"
| "rotateStep marshal (RotateStopRead conn jn velocity) =
     Inr (Some (snd (readResponse conn)))"

definition rotateStarts ::
  "('f Message \<Rightarrow> error + string) \<Rightarrow> (string \<Rightarrow> error + string list) \<Rightarrow> (nat \<Rightarrow> error + Conn) \<Rightarrow>
     string \<Rightarrow> 'f \<Rightarrow> 'f rotating list" where
  "rotateStarts marshal unmarshal dial cubeName velocity =
     (let joints = getJointsForCube marshal unmarshal (dial 0) cubeName
      in map (\<lambda>(i, joint). RotateDial (dial (Suc i)) joint velocity) (enumerate 0 joints))"

section \<open>Runs of the program\<close>

text \<open>
  The calls that read or write the registry, each with the results of its dials, and
  a run of the program as the sequence of these calls in the order in which they take
  effect on the registry. \<^verbatim>\<open>spawnCube\<close>, \<^verbatim>\<open>linkCubes\<close> and \<^verbatim>\<open>linkCubeChains\<close> are the
  only functions of the program with an assignment to \<^verbatim>\<open>globalCubeList\<close> or
  \<^verbatim>\<open>globalCubeLinks\<close>; the functions not listed here (the other variants of
  \<^verbatim>\<open>stiffenAllJoints\<close>, \<^verbatim>\<open>setMouthColorYellow\<close>, \<^verbatim>\<open>testLinkBodyCubes\<close>, the
  \<^verbatim>\<open>rotate\<close> family, \<^verbatim>\<open>getJointsForCube\<close>, \<^verbatim>\<open>handleCube\<close>) have none either.
\<close>

datatype 'f call =
    SpawnCube "error + Conn" "'f Cube"
  | LinkCubes "error + Conn" string string string string
  | LinkCubeChains "error + Conn" "string list list" string "string \<rightharpoonup> 'f"
  | UnfreezeAllCubes "nat \<Rightarrow> error + Conn"
  | DespawnAllCubes "nat \<Rightarrow> error + Conn"
  | StiffenAllJoints "nat \<Rightarrow> error + Conn" "nat \<Rightarrow> (string \<times> 'f) list"
  | FindClosestJoint string

fun exec :: "(('f::zero) Message \<Rightarrow> error + string) \<Rightarrow> Globals \<Rightarrow> 'f call \<Rightarrow> Globals" where
  "exec marshal g (SpawnCube dial cube) = spawnCube marshal dial cube g"
| "exec marshal g (LinkCubes dial cubeA cubeB jointType jointName) =
     linkCubes marshal dial cubeA cubeB jointType jointName g"
| "exec marshal g (LinkCubeChains dial chains' jointType jointParams) =
     snd (linkCubeChains marshal dial chains' jointType jointParams g)"
| "exec marshal g (UnfreezeAllCubes dial) = fst (unfreezeAllCubes marshal dial g)"
| "exec marshal g (DespawnAllCubes dial) = fst (despawnAllCubes marshal dial g)"
| "exec marshal g (StiffenAllJoints dial order) = fst (stiffenAllJoints marshal dial order g)"
| "exec marshal g (FindClosestJoint targetCube) = g"

definition run :: "(('f::zero) Message \<Rightarrow> error + string) \<Rightarrow> Globals \<Rightarrow> 'f call list \<Rightarrow> Globals" where
  "run marshal g calls = foldl (exec marshal) g calls"

section \<open>Vocabulary for stating the properties of the codec\<close>

text \<open>
  What a connection delivers to one call of \<^verbatim>\<open>readResponse\<close>: the chunks of the reads
  before the first failing read, the error of that read, and the reads left after it.
\<close>

fun received :: "read_result list \<Rightarrow> string list" where
  "received [] = []"
| "received (Chunk d # rs) = d # received rs"
| "received (Failed e # rs) = []"

fun failure :: "read_result list \<Rightarrow> error" where
  "failure [] = EOF"
| "failure (Chunk d # rs) = failure rs"
| "failure (Failed e # rs) = e"

fun after_failure :: "read_result list \<Rightarrow> read_result list" where
  "after_failure [] = []"
| "after_failure (Chunk d # rs) = after_failure rs"
| "after_failure (Failed e # rs) = rs"

text \<open>All the bytes a reader can still hand out before a read fails.\<close>

definition avail :: "Reader \<Rightarrow> string" where
  "avail r = buf r @ concat (received (rd (src r)))"

text \<open>The prefix of \<open>s\<close> that ends with the last occurrence of \<open>d\<close>; empty when there is none.\<close>

definition uptoLast :: "char \<Rightarrow> string \<Rightarrow> string" where
  "uptoLast d s = rev (dropWhile (\<lambda>c. c \<noteq> d) (rev s))"


text \<open>
  The shape of the text \<^verbatim>\<open>json.Marshal\<close> gives for a non-nil map: an object, from its
  opening to its closing brace.
\<close>

definition objectText :: "string \<Rightarrow> bool" where
  "objectText j = (j \<noteq> [] \<and> hd j = CHR ''{'' \<and> last j = CHR ''}'')"


section \<open>Vocabulary for stating the properties of the registry\<close>

text \<open>
  The spawn command succeeds: the dial, the write of the password, the read of the
  answer and the write of the command all return without an error.
\<close>

definition spawnSucceeds ::
  "(('f::zero) Message \<Rightarrow> error + string) \<Rightarrow> error + Conn \<Rightarrow> 'f Cube \<Rightarrow> bool" where
  "spawnSucceeds marshal dial cube =
     (case dial of
        Inl err \<Rightarrow> False
      | Inr conn \<Rightarrow>
          (let (authWriteErr, conn1) = Write conn (authPass @ delimiter);
               ((resp, authReadErr), conn2) = readResponse conn1;
               (sendErr, conn3) = sendJSONMessage marshal conn2 (spawnMessage cube)
           in authWriteErr = None \<and> authReadErr = None \<and> sendErr = None))"

text \<open>
  The same in terms of what the network does: the dial gives a connection, its first
  two writes succeed, and the command can be encoded.
\<close>

definition commandSucceeds :: "('m \<Rightarrow> error + string) \<Rightarrow> error + Conn \<Rightarrow> 'm \<Rightarrow> bool" where
  "commandSucceeds marshal dial msg =
     (case dial of
        Inl err \<Rightarrow> False
      | Inr conn \<Rightarrow>
          (case wr conn of
             None # None # ws \<Rightarrow> (case marshal msg of Inl err \<Rightarrow> False | Inr data \<Rightarrow> True)
           | _ \<Rightarrow> False))"

text \<open>The link between the names at positions \<open>i\<close> and \<open>i + 1\<close> of a chain.\<close>

definition chainLink :: "string \<Rightarrow> string list \<Rightarrow> nat \<Rightarrow> CubeLink" where
  "chainLink jointType chain i =
     \<lparr>JointName = ''joint_'' @ jointType @ ''_'' @ chain ! i @ ''_'' @ chain ! Suc i,
      CubeA = chain ! i, CubeB = chain ! Suc i\<rparr>"

text \<open>The links the inner loop of \<^verbatim>\<open>linkCubeChains\<close> appends for one chain.\<close>

definition contributed :: "string \<Rightarrow> string list \<Rightarrow> CubeLink list" where
  "contributed jointType chain = chainLoop jointType chain 0 []"

definition touches :: "CubeLink \<Rightarrow> string \<Rightarrow> bool" where
  "touches link x = (CubeA link = x \<or> CubeB link = x)"

text \<open>How many elements a call appends to each list.\<close>

fun cubeAppends :: "(('f::zero) Message \<Rightarrow> error + string) \<Rightarrow> 'f call \<Rightarrow> nat" where
  "cubeAppends marshal (SpawnCube dial cube) =
     (if commandSucceeds marshal dial (spawnMessage cube) then 1 else 0)"
| "cubeAppends marshal call = 0"

fun linkAppends :: "(('f::zero) Message \<Rightarrow> error + string) \<Rightarrow> 'f call \<Rightarrow> nat" where
  "linkAppends marshal (LinkCubes dial cubeA cubeB jointType jointName) =
     (if commandSucceeds marshal dial (linkMessage cubeA cubeB jointType jointName :: 'f Message)
      then 1 else 0)"
| "linkAppends marshal (LinkCubeChains dial chs jointType jointParams) =
     (if commandSucceeds marshal dial (chainsMessage chs jointType jointParams)
      then (\<Sum>chain\<leftarrow>chs. length chain - 1) else 0)"
| "linkAppends marshal call = 0"

section \<open>Vocabulary for stating the properties of the batches\<close>

text \<open>A goroutine at program point \<open>u\<close>, left to itself, ends with the result \<open>r\<close>.\<close>

inductive yields :: "('u \<Rightarrow> 'u + 'r) \<Rightarrow> 'u \<Rightarrow> 'r \<Rightarrow> bool" for ustep :: "'u \<Rightarrow> 'u + 'r" where
  returns: "ustep u = Inr r \<Longrightarrow> yields ustep u r"
| continues: "ustep u = Inl u' \<Longrightarrow> yields ustep u' r \<Longrightarrow> yields ustep u r"

fun running :: "('u, 'r) goroutine \<Rightarrow> bool" where
  "running (Running u) = True"
| "running (Finished r) = False"

definition active :: "('u, 'r) goroutine list \<Rightarrow> nat" where
  "active gs = length (filter running gs)"

fun settles :: "('u \<Rightarrow> 'u + 'r) \<Rightarrow> ('u, 'r) goroutine \<Rightarrow> 'r \<Rightarrow> bool" where
  "settles ustep (Running u) r = yields ustep u r"
| "settles ustep (Finished r') r = (r' = r)"

text \<open>
  The invariant of the wait group: the counter is the number of goroutines that have
  not ended (one more between \<^verbatim>\<open>Add\<close> and \<^verbatim>\<open>go\<close>), and the goroutines started are
  those of the items before the current one.
\<close>

definition barrier_inv :: "'u list \<Rightarrow> ('u, 'r) batch \<Rightarrow> bool" where
  "barrier_inv starts s =
     (case at s of
        Launching i \<Rightarrow> length (goroutines s) = i \<and> i \<le> length starts \<and>
                        counter s = int (active (goroutines s))
      | Starting i \<Rightarrow> length (goroutines s) = i \<and> i < length starts \<and>
                        counter s = int (active (goroutines s)) + 1
      | Waiting \<Rightarrow> length (goroutines s) = length starts \<and>
                        counter s = int (active (goroutines s))
      | Back \<Rightarrow> length (goroutines s) = length starts \<and> active (goroutines s) = 0 \<and>
                        counter s = 0)"

text \<open>Each goroutine still ends with the result it would have on its own.\<close>

definition own_inv :: "('u \<Rightarrow> 'u + 'r) \<Rightarrow> 'u list \<Rightarrow> ('u, 'r) batch \<Rightarrow> bool" where
  "own_inv ustep starts s =
     (\<forall>k < length (goroutines s). \<forall>r. yields ustep (starts ! k) r \<longrightarrow> settles ustep (goroutines s ! k) r)"

definition detached_inv :: "'u list \<Rightarrow> ('u, 'r) batch \<Rightarrow> bool" where
  "detached_inv starts s =
     (case at s of
        Launching i \<Rightarrow> length (goroutines s) = i \<and> i \<le> length starts
      | Back \<Rightarrow> length (goroutines s) = length starts
      | _ \<Rightarrow> False)"

text \<open>
  A bound on the steps a batch can still take, given a bound \<open>m\<close> on the steps a
  goroutine can still take from each program point.
\<close>

fun weight :: "('u \<Rightarrow> nat) \<Rightarrow> ('u, 'r) goroutine \<Rightarrow> nat" where
  "weight m (Running u) = Suc (m u)"
| "weight m (Finished r) = 0"

definition remaining :: "('u \<Rightarrow> nat) \<Rightarrow> 'u list \<Rightarrow> ('u, 'r) batch \<Rightarrow> nat" where
  "remaining m starts s =
     (case at s of
        Launching i \<Rightarrow> 2 * (length starts - i) + 2
      | Starting i \<Rightarrow> 2 * (length starts - i) + 1
      | Waiting \<Rightarrow> 1
      | Back \<Rightarrow> 0)
     + sum_list (map (weight m) (goroutines s))
     + sum_list (map (\<lambda>u. Suc (m u)) (drop (length (goroutines s)) starts))"

fun unfreezeLeft :: "unfreezing \<Rightarrow> nat" where
  "unfreezeLeft (UnfreezeDial dial name) = 3"
| "unfreezeLeft (UnfreezeAuth conn name) = 2"
| "unfreezeLeft (UnfreezeRead conn name) = 1"
| "unfreezeLeft (UnfreezeSend conn name) = 0"

fun stiffenLeft :: "'f stiffening \<Rightarrow> nat" where
  "stiffenLeft (StiffenDial dial joint ps) = length ps + 3"
| "stiffenLeft (StiffenAuth conn joint ps) = length ps + 2"
| "stiffenLeft (StiffenRead conn joint ps) = length ps + 1"
| "stiffenLeft (StiffenParams conn joint ps) = length ps"

section \<open>Facts about the string functions\<close>

lemma HasPrefix_iff: "HasPrefix s p \<longleftrightarrow> prefix p s"
  by (induction s p rule: HasPrefix.induct) auto

lemma Contains_iff: "Contains s sub \<longleftrightarrow> sublist sub s"
  by (induction s) (auto simp: HasPrefix_iff sublist_Cons_right)

lemma HasPrefix_count: "HasPrefix s p \<Longrightarrow> count_list p c \<le> count_list s c"
  by (induction s p rule: HasPrefix.induct) auto

lemma Contains_count: "Contains s sub \<Longrightarrow> count_list sub c \<le> count_list s c"
  by (induction s) (auto dest: HasPrefix_count [where c = c] split: if_splits)

lemma count_takeWhile: "count_list (takeWhile (\<lambda>c. c \<noteq> d) s @ [d]) d = 1"
  by (induction s) auto

lemma count_delim: "count_list delimiter CHR ''-'' = 3"
  by (simp add: delimiter_def)

lemma line_no_delimiter: "\<not> Contains (takeWhile (\<lambda>c. c \<noteq> CHR ''-'') s @ ''-'') delimiter"
  using Contains_count [of "takeWhile (\<lambda>c. c \<noteq> CHR ''-'') s @ ''-''" delimiter "CHR ''-''"]
    count_takeWhile [of "CHR ''-''" s] count_delim by auto

lemma ReplaceAll_absent:
  "\<not> Contains s old \<Longrightarrow> ReplaceAll s old new = s"
proof (induction s)
  case Nil
  show ?case by (simp add: ReplaceAll.simps)
next
  case (Cons c cs)
  then show ?case by (subst ReplaceAll.simps) auto
qed

lemma ReplaceAll_delimiter: "ReplaceAll delimiter delimiter [] = []"
  by (simp add: ReplaceAll.simps delimiter_def)

lemma delimiter_border_free:
  "delimiter = u @ v \<Longrightarrow> prefix v delimiter \<Longrightarrow> u \<noteq> [] \<Longrightarrow> v = []"
proof (rule ccontr)
  assume d: "delimiter = u @ v" and p: "prefix v delimiter" and u: "u \<noteq> []" and v: "v \<noteq> []"
  from p v have "hd v = CHR ''<''"
    by (cases v) (auto simp: delimiter_def)
  with v have "CHR ''<'' \<in> set v" by (cases v) auto
  moreover from d u obtain a l where "delimiter = a # (l @ v)"
    by (cases u) auto
  then have "tl delimiter = l @ v" by (metis list.sel(3))
  then have "set v \<subseteq> set (tl delimiter)" by simp
  ultimately show False by (auto simp: delimiter_def)
qed

lemma no_straddle:
  assumes "\<not> Contains (c # cs) delimiter"
  shows "\<not> HasPrefix ((c # cs) @ delimiter) delimiter"
proof
  assume "HasPrefix ((c # cs) @ delimiter) delimiter"
  then have "prefix delimiter ((c # cs) @ delimiter)" by (simp add: HasPrefix_iff)
  then consider "prefix delimiter (c # cs)"
    | us where "delimiter = (c # cs) @ us" "prefix us delimiter"
    unfolding prefix_append by blast
  then show False
  proof cases
    case 1
    then have "sublist delimiter (c # cs)" by (rule prefix_imp_sublist)
    with assms show False by (simp add: Contains_iff)
  next
    case 2
    from delimiter_border_free [OF 2(1) 2(2)] have "us = []" by simp
    with 2 have "delimiter = c # cs" by simp
    with assms show False by (simp add: Contains_iff)
  qed
qed

lemma ReplaceAll_framed:
  "\<not> Contains j delimiter \<Longrightarrow> ReplaceAll (j @ delimiter) delimiter [] = j"
proof (induction j)
  case Nil
  show ?case by (simp add: ReplaceAll_delimiter)
next
  case (Cons c cs)
  from Cons.prems have "\<not> Contains cs delimiter" by simp
  with Cons.IH have "ReplaceAll (cs @ delimiter) delimiter [] = cs" by simp
  with no_straddle [OF Cons.prems] show ?case
    by (subst append_Cons, subst ReplaceAll.simps) simp
qed

lemma leadingSpace_brace: "leadingSpace (CHR ''{'' # s) = None"
  by (simp add: leadingSpace_def spaceRunes_def)

lemma trailingSpace_brace: "trailingSpace (s @ [CHR ''}'']) = None"
  by (simp add: trailingSpace_def spaceRunes_def HasSuffix_def)

lemma TrimSpace_object: "objectText j \<Longrightarrow> TrimSpace j = j"
proof -
  assume "objectText j"
  then obtain s where l: "j = CHR ''{'' # s" by (cases j) (auto simp: objectText_def)
  from \<open>objectText j\<close> obtain t where r: "j = t @ [CHR ''}'']"
    by (metis append_butlast_last_id objectText_def)
  have "TrimLeft j = j" by (subst TrimLeft.simps) (simp add: l leadingSpace_brace)
  moreover have "TrimRight j = j"
    by (subst TrimRight.simps, subst r) (simp add: trailingSpace_brace)
  ultimately show ?thesis by (simp add: TrimSpace_def)
qed


section \<open>Facts about the reader and the loop\<close>

lemma ReadString_fail:
  "d \<notin> set (avail r) \<Longrightarrow>
   ReadString r d =
     ((avail r, Some (failure (rd (src r)))),
      \<lparr>buf = [], src = (src r)\<lparr>rd := after_failure (rd (src r))\<rparr>\<rparr>)"
proof (induction r d rule: ReadString.induct)
  case (1 b delim)
  show ?case
  proof (cases "rd (src b)")
    case Nil
    with "1.prems" show ?thesis
      by (subst ReadString.simps) (simp add: avail_def Read_def)
  next
    case (Cons x xs)
    show ?thesis
    proof (cases x)
      case (Chunk d)
      have "delim \<notin> set (avail (b\<lparr>buf := buf b @ d, src := (src b)\<lparr>rd := xs\<rparr>\<rparr>))"
        using "1.prems" Cons Chunk by (simp add: avail_def)
      from "1.IH" [OF _ _ _ this] "1.prems" Cons Chunk show ?thesis
        by (subst ReadString.simps) (simp add: avail_def Read_def)
    next
      case (Failed e)
      with "1.prems" Cons show ?thesis
        by (subst ReadString.simps) (simp add: avail_def Read_def)
    qed
  qed
qed

lemma ReadString_ok:
  "d \<in> set (avail r) \<Longrightarrow>
   \<exists>r'. ReadString r d = ((takeWhile (\<lambda>c. c \<noteq> d) (avail r) @ [d], None), r') \<and>
        avail r' = tl (dropWhile (\<lambda>c. c \<noteq> d) (avail r)) \<and>
        after_failure (rd (src r')) = after_failure (rd (src r)) \<and>
        wr (src r') = wr (src r) \<and> sent (src r') = sent (src r)"
proof (induction r d rule: ReadString.induct)
  case (1 b delim)
  show ?case
  proof (cases "delim \<in> set (buf b)")
    case True
    then have "dropWhile (\<lambda>c. c \<noteq> delim) (buf b) \<noteq> []" by simp
    with True show ?thesis
      by (subst ReadString.simps) (simp add: avail_def dropWhile_append1 )
  next
    case False
    show ?thesis
    proof (cases "rd (src b)")
      case Nil
      with "1.prems" False show ?thesis by (simp add: avail_def)
    next
      case (Cons x xs)
      show ?thesis
      proof (cases x)
        case (Chunk d)
        let ?b = "b\<lparr>buf := buf b @ d, src := (src b)\<lparr>rd := xs\<rparr>\<rparr>"
        have eq: "avail ?b = avail b"
          using Cons Chunk by (simp add: avail_def)
        have "delim \<in> set (avail ?b)"
          using "1.prems" eq by simp
        from "1.IH" [OF False _ _ this] Cons Chunk
        obtain r' where "ReadString ?b delim = ((takeWhile (\<lambda>c. c \<noteq> delim) (avail ?b) @ [delim], None), r')"
          and "avail r' = tl (dropWhile (\<lambda>c. c \<noteq> delim) (avail ?b))"
          and "after_failure (rd (src r')) = after_failure (rd (src ?b))"
          and "wr (src r') = wr (src ?b)" and "sent (src r') = sent (src ?b)"
          by (auto simp: Read_def)
        with False Cons Chunk eq show ?thesis
          by (subst ReadString.simps) (simp add: Read_def)
      next
        case (Failed e)
        with "1.prems" False Cons show ?thesis by (simp add: avail_def)
      qed
    qed
  qed
qed


lemma uptoLast_none: "d \<notin> set s \<Longrightarrow> uptoLast d s = []"
  by (auto simp: uptoLast_def dropWhile_eq_Nil_conv)

lemma uptoLast_step:
  assumes "d \<in> set s"
  shows "uptoLast d s =
           (takeWhile (\<lambda>c. c \<noteq> d) s @ [d]) @ uptoLast d (tl (dropWhile (\<lambda>c. c \<noteq> d) s))"
proof -
  from assms obtain p t where s: "s = p @ d # t" and p: "d \<notin> set p"
    by (auto dest: split_list_first)
  have "takeWhile (\<lambda>c. c \<noteq> d) (p @ d # t) = p \<and> dropWhile (\<lambda>c. c \<noteq> d) (p @ d # t) = d # t"
    using p by (induction p) auto
  then have tw: "takeWhile (\<lambda>c. c \<noteq> d) s = p" and dw: "dropWhile (\<lambda>c. c \<noteq> d) s = d # t"
    using s by simp_all
  show ?thesis
  proof (cases "d \<in> set t")
    case True
    then have "dropWhile (\<lambda>c. c \<noteq> d) (rev t @ d # rev p) = dropWhile (\<lambda>c. c \<noteq> d) (rev t) @ d # rev p"
      by (simp add: dropWhile_append1)
    then show ?thesis by (simp add: uptoLast_def tw dw) (simp add: s)
  next
    case False
    then have none: "dropWhile (\<lambda>c. c \<noteq> d) (rev t) = []"
      by (auto simp: dropWhile_eq_Nil_conv)
    have "dropWhile (\<lambda>c. c \<noteq> d) (rev t @ d # rev p) = d # rev p"
      using False by (subst dropWhile_append2) auto
    moreover note none
    ultimately show ?thesis by (simp add: uptoLast_def tw dw) (simp add: s)
  qed
qed

lemma readLoop_spec:
  "readLoop r b =
     (b @ uptoLast CHR ''-'' (avail r),
      \<lparr>buf = [], src = (src r)\<lparr>rd := after_failure (rd (src r))\<rparr>\<rparr>)"
proof (induction r b rule: readLoop.induct)
  case (1 reader builder)
  show ?case
  proof (cases "CHR ''-'' \<in> set (avail reader)")
    case False
    then show ?thesis
      by (subst readLoop.simps) (simp add: ReadString_fail uptoLast_none)
  next
    case True
    let ?line = "takeWhile (\<lambda>c. c \<noteq> CHR ''-'') (avail reader) @ ''-''"
    from ReadString_ok [OF True] obtain r' where
      rs: "ReadString reader CHR ''-'' = ((?line, None), r')"
      and av: "avail r' = tl (dropWhile (\<lambda>c. c \<noteq> CHR ''-'') (avail reader))"
      and af: "after_failure (rd (src r')) = after_failure (rd (src reader))"
      and ws: "wr (src r') = wr (src reader)" "sent (src r') = sent (src reader)"
      by blast
    have nc: "\<not> Contains ?line delimiter" by (rule line_no_delimiter)
    have same: "(src r')\<lparr>rd := after_failure (rd (src reader))\<rparr> =
                (src reader)\<lparr>rd := after_failure (rd (src reader))\<rparr>"
      using ws by simp
    have "readLoop reader builder = readLoop r' (builder @ ?line)"
      using rs nc by (subst readLoop.simps) simp
    also have "\<dots> = ((builder @ ?line) @ uptoLast CHR ''-'' (avail r'),
        \<lparr>buf = [], src = (src r')\<lparr>rd := after_failure (rd (src r'))\<rparr>\<rparr>)"
      using "1.IH" [OF rs [symmetric] refl refl refl nc] by simp
    finally show ?thesis
      using uptoLast_step [OF True] av af same by simp
  qed
qed

lemma readResponse_spec:
  "readResponse c =
     ((TrimSpace (ReplaceAll (uptoLast CHR ''-'' (concat (received (rd c)))) delimiter []), None),
      c\<lparr>rd := after_failure (rd c)\<rparr>)"
  by (simp add: readResponse_def readLoop_spec avail_def)



section \<open>Facts about the commands\<close>

lemma spawnCube_eq:
  "spawnCube marshal dial cube g =
     (if spawnSucceeds marshal dial cube
      then g\<lparr>globalCubeList := globalCubeList g @ [Name cube @ ''_BASE'']\<rparr>
      else g)"
  by (auto simp: spawnCube_def spawnSucceeds_def Let_def split: sum.splits prod.splits option.splits)

lemma Write_wr: "Write c d = (e, c') \<Longrightarrow> rd c' = rd c"
  by (auto simp: Write_def split: list.splits option.splits)

lemma sendJSONMessage_ok:
  "fst (sendJSONMessage marshal c msg) = None \<longleftrightarrow>
     (\<exists>data ws. marshal msg = Inr data \<and> wr c = None # ws)"
  by (cases "marshal msg"; cases "wr c")
     (auto simp: sendJSONMessage_def Write_def split: option.splits)

lemma Write_ok:
  "Write c d = (e, c') \<Longrightarrow> (e = None \<longleftrightarrow> (\<exists>ws. wr c = None # ws)) \<and> wr c' = tl (wr c)"
  by (cases "wr c") (auto simp: Write_def split: option.splits)

lemma spawnSucceeds_iff:
  "spawnSucceeds marshal dial cube \<longleftrightarrow>
     (\<exists>conn ws data. dial = Inr conn \<and> wr conn = None # None # ws \<and>
        marshal (spawnMessage cube) = Inr data)"
proof (cases dial)
  case (Inl err)
  then show ?thesis by (simp add: spawnSucceeds_def)
next
  case (Inr conn)
  obtain e1 c1 where w: "Write conn (authPass @ delimiter) = (e1, c1)" by fastforce
  have s: "fst (sendJSONMessage marshal (c1\<lparr>rd := after_failure (rd c1)\<rparr>) (spawnMessage cube)) = None
      \<longleftrightarrow> (\<exists>data ws. marshal (spawnMessage cube) = Inr data \<and> wr c1 = None # ws)"
    by (simp add: sendJSONMessage_ok)
  have "spawnSucceeds marshal dial cube \<longleftrightarrow>
      e1 = None \<and> fst (sendJSONMessage marshal (c1\<lparr>rd := after_failure (rd c1)\<rparr>) (spawnMessage cube)) = None"
    by (simp add: spawnSucceeds_def Inr w readResponse_spec split: prod.splits)
  also have "\<dots> \<longleftrightarrow> (\<exists>ws data. wr conn = None # None # ws \<and> marshal (spawnMessage cube) = Inr data)"
    using Write_ok [OF w] unfolding s by (cases "wr conn") auto
  finally show ?thesis using Inr by simp
qed

lemma commandSucceeds_iff:
  "commandSucceeds marshal dial msg \<longleftrightarrow>
     (\<exists>conn ws data. dial = Inr conn \<and> wr conn = None # None # ws \<and> marshal msg = Inr data)"
  by (auto simp: commandSucceeds_def split: sum.splits list.splits option.splits)

lemma spawnCube_command:
  "spawnCube marshal dial cube g =
     (if commandSucceeds marshal dial (spawnMessage cube)
      then g\<lparr>globalCubeList := globalCubeList g @ [Name cube @ ''_BASE'']\<rparr>
      else g)"
  by (simp add: spawnCube_eq spawnSucceeds_iff commandSucceeds_iff)

lemma after_auth:
  assumes "Write conn (authPass @ delimiter) = (None, c1)"
  shows "fst (sendJSONMessage marshal (snd (readResponse c1)) msg) = None \<longleftrightarrow>
           commandSucceeds marshal (Inr conn) msg"
proof -
  from Write_ok [OF assms] obtain ws where "wr conn = None # ws" "wr c1 = ws" by auto
  then show ?thesis
    by (auto simp: sendJSONMessage_ok readResponse_spec commandSucceeds_def
             split: list.splits option.splits sum.splits)
qed

lemma auth_failed:
  assumes "Write conn (authPass @ delimiter) = (Some e, c1)"
  shows "\<not> commandSucceeds marshal (Inr conn) msg"
  using Write_ok [OF assms] by (auto simp: commandSucceeds_def split: list.splits option.splits)

lemma linkCubes_command:
  "linkCubes marshal dial a b t n g =
     (if commandSucceeds marshal dial (linkMessage a b t n)
      then g\<lparr>globalCubeLinks := globalCubeLinks g @ [\<lparr>JointName = n, CubeA = a, CubeB = b\<rparr>]\<rparr>
      else g)"
proof (cases dial)
  case (Inl err)
  then show ?thesis by (simp add: linkCubes_def commandSucceeds_def)
next
  case (Inr conn)
  obtain e1 c1 where w: "Write conn (authPass @ delimiter) = (e1, c1)" by fastforce
  show ?thesis
  proof (cases e1)
    case None
    obtain e3 c3 where s: "sendJSONMessage marshal (snd (readResponse c1)) (linkMessage a b t n) = (e3, c3)"
      by fastforce
    from after_auth [OF w [unfolded None], of marshal "linkMessage a b t n"] s
    have "e3 = None \<longleftrightarrow> commandSucceeds marshal dial (linkMessage a b t n)"
      by (simp add: Inr)
    then show ?thesis using w None s Inr
      by (cases e3) (simp_all add: linkCubes_def Let_def)
  next
    case (Some e)
    with auth_failed [OF w [unfolded Some], of marshal "linkMessage a b t n"] w Inr
    show ?thesis by (simp add: linkCubes_def)
  qed
qed

lemma linkCubeChains_command:
  "snd (linkCubeChains marshal dial chs t ps g) =
     (if commandSucceeds marshal dial (chainsMessage chs t ps)
      then g\<lparr>globalCubeLinks := chainsLoop t chs (globalCubeLinks g)\<rparr>
      else g) \<and>
   (fst (linkCubeChains marshal dial chs t ps g) = None \<longleftrightarrow>
      commandSucceeds marshal dial (chainsMessage chs t ps))"
proof (cases dial)
  case (Inl err)
  then show ?thesis by (simp add: linkCubeChains_def commandSucceeds_def)
next
  case (Inr conn)
  obtain e1 c1 where w: "Write conn (authPass @ delimiter) = (e1, c1)" by fastforce
  show ?thesis
  proof (cases e1)
    case None
    obtain e3 c3 where s: "sendJSONMessage marshal (snd (readResponse c1)) (chainsMessage chs t ps) = (e3, c3)"
      by fastforce
    from after_auth [OF w [unfolded None], of marshal "chainsMessage chs t ps"] s
    have "e3 = None \<longleftrightarrow> commandSucceeds marshal dial (chainsMessage chs t ps)"
      by (simp add: Inr)
    then show ?thesis using w None s Inr
      by (cases e3) (simp_all add: linkCubeChains_def readResponse_spec)
  next
    case (Some e)
    with auth_failed [OF w [unfolded Some], of marshal "chainsMessage chs t ps"] w Inr
    show ?thesis by (simp add: linkCubeChains_def)
  qed
qed

lemma chainLoop_eq:
  "0 \<le> i \<Longrightarrow>
   chainLoop jointType chain i links =
     links @ map (chainLink jointType chain) [nat i ..< length chain - 1]"
proof (induction jointType chain i links rule: chainLoop.induct)
  case (1 jointType chain i links)
  show ?case
  proof (cases "i < int (length chain) - 1")
    case True
    with "1.prems" have lt: "nat i < length chain - 1" by linarith
    have n: "nat (i + 1) = Suc (nat i)" using "1.prems" by simp
    have "chainLoop jointType chain i links =
            chainLoop jointType chain (i + 1) (links @ [chainLink jointType chain (nat i)])"
      using True "1.prems" by (subst chainLoop.simps) (simp add: chainLink_def n Let_def)
    also have "\<dots> = (links @ [chainLink jointType chain (nat i)]) @
        map (chainLink jointType chain) [nat (i + 1) ..< length chain - 1]"
      using "1.IH" [OF _ refl refl refl] True "1.prems" by (simp add: chainLink_def n)
    finally show ?thesis using lt by (simp add: n upt_conv_Cons)
  next
    case False
    then have "\<not> nat i < length chain - 1" by linarith
    with False show ?thesis by (subst chainLoop.simps) simp
  qed
qed

lemma chainsLoop_eq:
  "chainsLoop jointType chs links =
     links @ concat (map (\<lambda>chain. map (chainLink jointType chain) [0 ..< length chain - 1]) chs)"
  by (induction chs arbitrary: links) (simp_all add: chainLoop_eq)

lemma linkCubeChains_ok:
  "linkCubeChains marshal dial chs jointType jointParams g = (None, g') \<Longrightarrow>
   g' = g\<lparr>globalCubeLinks := chainsLoop jointType chs (globalCubeLinks g)\<rparr>"
  by (auto simp: linkCubeChains_def split: sum.splits prod.splits option.splits)

lemma linkCubeChains_err:
  "linkCubeChains marshal dial chs jointType jointParams g = (Some e, g') \<Longrightarrow> g' = g"
  by (auto simp: linkCubeChains_def split: sum.splits prod.splits option.splits)

lemma contributed_eq:
  "contributed jointType chain = map (chainLink jointType chain) [0 ..< length chain - 1]"
  by (simp add: contributed_def chainLoop_eq)

lemma chainsLoop_contributed:
  "chainsLoop jointType chs links = links @ concat (map (contributed jointType) chs)"
  by (induction chs arbitrary: links) (simp_all add: chainLoop_eq contributed_eq)

lemma findLoop_first:
  "i < length links \<Longrightarrow> touches (links ! i) x \<Longrightarrow> (\<forall>j<i. \<not> touches (links ! j) x) \<Longrightarrow>
   findLoop links x = (JointName (links ! i), [foundLine (links ! i)])"
proof (induction links arbitrary: i)
  case Nil
  then show ?case by simp
next
  case (Cons l ls)
  show ?case
  proof (cases i)
    case 0
    with Cons.prems show ?thesis by (simp add: touches_def)
  next
    case (Suc k)
    with Cons.prems have "\<not> touches l x" by auto
    moreover from Suc Cons.prems have "findLoop ls x = (JointName (ls ! k), [foundLine (ls ! k)])"
      by (intro Cons.IH) auto
    ultimately show ?thesis using Suc by (simp add: touches_def)
  qed
qed

lemma findLoop_none:
  "(\<forall>l\<in>set links. \<not> touches l x) \<Longrightarrow> findLoop links x = ([], [noJointLine x])"
  by (induction links) (auto simp: touches_def)

lemma linkCubes_cases:
  "linkCubes marshal dial a b t n g = g \<or>
   linkCubes marshal dial a b t n g =
     g\<lparr>globalCubeLinks := globalCubeLinks g @ [\<lparr>JointName = n, CubeA = a, CubeB = b\<rparr>]\<rparr>"
  by (auto simp: linkCubes_def Let_def split: sum.splits prod.splits option.splits)

lemma linkCubeChains_cases:
  "snd (linkCubeChains marshal dial chs t ps g) = g \<or>
   snd (linkCubeChains marshal dial chs t ps g) =
     g\<lparr>globalCubeLinks := chainsLoop t chs (globalCubeLinks g)\<rparr>"
  by (auto simp: linkCubeChains_def split: sum.splits prod.splits option.splits)

lemma exec_extends:
  "\<exists>cs ls. globalCubeList (exec marshal g call) = globalCubeList g @ cs \<and>
           globalCubeLinks (exec marshal g call) = globalCubeLinks g @ ls"
proof (cases call)
  case (SpawnCube dial cube)
  then show ?thesis by (simp add: spawnCube_eq)
next
  case (LinkCubes dial a b t n)
  with linkCubes_cases [of marshal dial a b t n g] show ?thesis by auto
next
  case (LinkCubeChains dial chs t ps)
  with linkCubeChains_cases [of marshal dial chs t ps g] show ?thesis
    by (auto simp: chainsLoop_eq)
next
  case (UnfreezeAllCubes dial)
  then show ?thesis by (simp add: unfreezeAllCubes_def)
next
  case (DespawnAllCubes dial)
  then show ?thesis by (simp add: despawnAllCubes_def)
next
  case (StiffenAllJoints dial order)
  then show ?thesis by (simp add: stiffenAllJoints_def)
next
  case (FindClosestJoint x)
  then show ?thesis by simp
qed

lemma run_extends:
  "prefix (globalCubeList g) (globalCubeList (run marshal g calls)) \<and>
   prefix (globalCubeLinks g) (globalCubeLinks (run marshal g calls))"
  unfolding run_def
proof (induction calls arbitrary: g)
  case Nil
  show ?case by simp
next
  case (Cons c cs)
  from exec_extends [of marshal g c] obtain xs ys where
    "globalCubeList (exec marshal g c) = globalCubeList g @ xs"
    "globalCubeLinks (exec marshal g c) = globalCubeLinks g @ ys" by blast
  with Cons.IH [of "exec marshal g c"] show ?case
    by (auto dest: append_prefixD)
qed

lemma length_chainsLoop:
  "length (chainsLoop t chs links) = length links + (\<Sum>chain\<leftarrow>chs. length chain - 1)"
  by (simp add: chainsLoop_eq length_concat comp_def)

lemma exec_lengths:
  "length (globalCubeList (exec marshal g call)) = length (globalCubeList g) + cubeAppends marshal call \<and>
   length (globalCubeLinks (exec marshal g call)) = length (globalCubeLinks g) + linkAppends marshal call"
  by (cases call)
     (simp_all add: spawnCube_command linkCubes_command linkCubeChains_command
        despawnAllCubes_def unfreezeAllCubes_def stiffenAllJoints_def length_chainsLoop)

lemma run_lengths:
  "length (globalCubeList (run marshal g calls)) =
     length (globalCubeList g) + (\<Sum>c\<leftarrow>calls. cubeAppends marshal c) \<and>
   length (globalCubeLinks (run marshal g calls)) =
     length (globalCubeLinks g) + (\<Sum>c\<leftarrow>calls. linkAppends marshal c)"
  unfolding run_def
  by (induction calls arbitrary: g) (simp_all add: exec_lengths)

section \<open>Facts about the batches\<close>

lemma active_append [simp]: "active (gs @ [g]) = active gs + (if running g then 1 else 0)"
  by (simp add: active_def)

lemma active_update:
  "k < length gs \<Longrightarrow>
   active (gs[k := g]) + (if running (gs ! k) then 1 else 0) = active gs + (if running g then 1 else 0)"
proof (induction gs arbitrary: k)
  case Nil
  then show ?case by simp
next
  case (Cons a gs)
  show ?case
  proof (cases k)
    case 0
    then show ?thesis by (simp add: active_def)
  next
    case (Suc j)
    with Cons.prems have "j < length gs" by simp
    from Cons.IH [OF this] Suc show ?thesis by (simp add: active_def)
  qed
qed

lemma active_zero: "active gs = 0 \<Longrightarrow> g \<in> set gs \<Longrightarrow> \<exists>r. g = Finished r"
  by (cases g) (auto simp: active_def filter_empty_conv)

lemma active_pos: "0 < active gs \<Longrightarrow> \<exists>k u. k < length gs \<and> gs ! k = Running u"
proof -
  assume "0 < active gs"
  then obtain g where "g \<in> set gs" "running g"
    by (auto simp: active_def filter_empty_conv)
  from this(1) obtain k where "k < length gs" "gs ! k = g"
    by (metis in_set_conv_nth)
  moreover from \<open>running g\<close> obtain u where "g = Running u"
    by (cases g) auto
  ultimately show ?thesis by blast
qed

lemma barrier_inv_start: "barrier_inv starts start"
  by (simp add: barrier_inv_def start_def active_def)

lemma barrier_inv_step:
  assumes "step ustep starts s s'" and "barrier_inv starts s"
  shows "barrier_inv starts s'"
  using assms
proof (cases rule: step.cases)
  case (add i)
  with assms(2) show ?thesis by (simp add: barrier_inv_def)
next
  case (go i)
  with assms(2) show ?thesis by (auto simp: barrier_inv_def)
next
  case (wait i)
  with assms(2) show ?thesis by (auto simp: barrier_inv_def)
next
  case wake
  with assms(2) show ?thesis by (auto simp: barrier_inv_def)
next
  case (advance k u u')
  from active_update [OF advance(2), of "Running u'"] advance(3)
  have "active ((goroutines s)[k := Running u']) = active (goroutines s)" by simp
  with advance assms(2) show ?thesis
    by (auto simp: barrier_inv_def split: position.splits)
next
  case (finish k u r)
  from active_update [OF finish(2), of "Finished r"] finish(3)
  have "active ((goroutines s)[k := Finished r]) + 1 = active (goroutines s)" by simp
  with finish assms(2) show ?thesis
    by (auto simp: barrier_inv_def split: position.splits)
qed

lemma barrier_inv_reachable:
  "(step ustep starts)\<^sup>*\<^sup>* start s \<Longrightarrow> barrier_inv starts s"
  by (induction rule: rtranclp_induct) (auto intro: barrier_inv_start barrier_inv_step)

lemma yields_next: "yields ustep u r \<Longrightarrow> ustep u = Inl u' \<Longrightarrow> yields ustep u' r"
  by (cases rule: yields.cases) auto

lemma yields_last: "yields ustep u r \<Longrightarrow> ustep u = Inr r' \<Longrightarrow> r' = r"
  by (cases rule: yields.cases) auto

lemma own_inv_start: "own_inv ustep starts start"
  by (simp add: own_inv_def start_def)

lemma own_inv_step:
  assumes "step ustep starts s s'" and "own_inv ustep starts s" and "barrier_inv starts s"
  shows "own_inv ustep starts s'"
  using assms(1)
proof (cases rule: step.cases)
  case (add i)
  with assms(2) show ?thesis by (simp add: own_inv_def)
next
  case (go i)
  with assms(3) have len: "length (goroutines s) = i" by (simp add: barrier_inv_def)
  show ?thesis
    unfolding own_inv_def
  proof (intro allI impI)
    fix k r
    assume k: "k < length (goroutines s')" and y: "yields ustep (starts ! k) r"
    show "settles ustep (goroutines s' ! k) r"
    proof (cases "k < i")
      case True
      with assms(2) y len go show ?thesis by (simp add: own_inv_def nth_append)
    next
      case False
      with k len go have "k = i" by simp
      with y len go show ?thesis by (simp add: nth_append)
    qed
  qed
next
  case (wait i)
  with assms(2) show ?thesis by (simp add: own_inv_def)
next
  case wake
  with assms(2) show ?thesis by (simp add: own_inv_def)
next
  case (advance k u u')
  show ?thesis
    unfolding own_inv_def
  proof (intro allI impI)
    fix j r
    assume j: "j < length (goroutines s')" and y: "yields ustep (starts ! j) r"
    with assms(2) advance have old: "settles ustep (goroutines s ! j) r" by (simp add: own_inv_def)
    show "settles ustep (goroutines s' ! j) r"
    proof (cases "j = k")
      case True
      with old advance have "yields ustep u r" by simp
      from yields_next [OF this advance(4)] True advance show ?thesis by simp
    next
      case False
      with old advance show ?thesis by simp
    qed
  qed
next
  case (finish k u r')
  show ?thesis
    unfolding own_inv_def
  proof (intro allI impI)
    fix j r
    assume j: "j < length (goroutines s')" and y: "yields ustep (starts ! j) r"
    with assms(2) finish have old: "settles ustep (goroutines s ! j) r" by (simp add: own_inv_def)
    show "settles ustep (goroutines s' ! j) r"
    proof (cases "j = k")
      case True
      with old finish have "yields ustep u r" by simp
      from yields_last [OF this finish(4)] True finish show ?thesis by simp
    next
      case False
      with old finish show ?thesis by simp
    qed
  qed
qed

lemma invs_reachable:
  "(step ustep starts)\<^sup>*\<^sup>* start s \<Longrightarrow> barrier_inv starts s \<and> own_inv ustep starts s"
  by (induction rule: rtranclp_induct)
     (auto intro: barrier_inv_start barrier_inv_step own_inv_start own_inv_step)

lemma barrier_results:
  assumes reach: "(step ustep starts)\<^sup>*\<^sup>* start s" and ret: "at s = Back"
    and res: "\<And>k. k < length starts \<Longrightarrow> yields ustep (starts ! k) (result (starts ! k))"
  shows "goroutines s = map (\<lambda>u. Finished (result u)) starts"
proof (rule nth_equalityI)
  from invs_reachable [OF reach] have b: "barrier_inv starts s" and o: "own_inv ustep starts s"
    by simp_all
  from b ret have len: "length (goroutines s) = length starts" and a: "active (goroutines s) = 0"
    by (simp_all add: barrier_inv_def)
  show "length (goroutines s) = length (map (\<lambda>u. Finished (result u)) starts)"
    using len by simp
  fix k assume k: "k < length (goroutines s)"
  with a obtain r where r: "goroutines s ! k = Finished r"
    using active_zero nth_mem by blast
  from o k res [of k] len have "settles ustep (goroutines s ! k) (result (starts ! k))"
    by (simp add: own_inv_def)
  with r k len show "goroutines s ! k = map (\<lambda>u. Finished (result u)) starts ! k" by simp
qed

lemma no_deadlock:
  assumes "(step ustep starts)\<^sup>*\<^sup>* start s" and "at s \<noteq> Back"
  shows "\<exists>s'. step ustep starts s s'"
proof -
  from invs_reachable [OF assms(1)] have b: "barrier_inv starts s" by simp
  show ?thesis
  proof (cases "at s")
    case (Launching i)
    then show ?thesis by (cases "i < length starts") (blast intro: step.add step.wait)+
  next
    case (Starting i)
    then show ?thesis by (blast intro: step.go)
  next
    case Waiting
    show ?thesis
    proof (cases "counter s = 0")
      case True
      with Waiting show ?thesis by (blast intro: step.wake)
    next
      case False
      with b Waiting have "0 < active (goroutines s)" by (simp add: barrier_inv_def)
      from active_pos [OF this] obtain k u where
        k: "k < length (goroutines s)" "goroutines s ! k = Running u" by blast
      then show ?thesis by (cases "ustep u") (blast intro: step.advance step.finish)+
    qed
  next
    case Back
    with assms(2) show ?thesis by simp
  qed
qed

lemma unfreeze_yields:
  "yields (unfreezeStep marshal) (UnfreezeDial dial name) (unfreezeUnit marshal dial name)"
proof (cases dial)
  case (Inl err)
  then show ?thesis by (auto simp: unfreezeUnit_def intro!: yields.returns)
next
  case (Inr conn)
  obtain e c1 where w: "Write conn (authPass @ delimiter) = (e, c1)" by fastforce
  have send: "yields (unfreezeStep marshal) (UnfreezeSend c name)
                (Some (snd (sendJSONMessage marshal c (unfreezeMessage name))))" for c
    by (rule yields.returns) simp
  have read: "yields (unfreezeStep marshal) (UnfreezeRead c name)
                (Some (snd (sendJSONMessage marshal (snd (readResponse c)) (unfreezeMessage name))))" for c
    by (rule yields.continues [OF _ send]) simp
  have auth: "yields (unfreezeStep marshal) (UnfreezeAuth conn name) (unfreezeUnit marshal dial name)"
  proof (cases e)
    case None
    with w have "unfreezeStep marshal (UnfreezeAuth conn name) = Inl (UnfreezeRead c1 name)"
      by simp
    from yields.continues [OF this read] show ?thesis
      using w None Inr by (simp add: unfreezeUnit_def Let_def)
  next
    case (Some err)
    with w Inr show ?thesis by (auto simp: unfreezeUnit_def intro!: yields.returns)
  qed
  show ?thesis by (rule yields.continues [OF _ auth]) (simp add: Inr)
qed

lemma stiffen_params_yields:
  "yields (stiffenStep marshal) (StiffenParams conn joint ps)
     (Some (foldl (\<lambda>c (paramName, val). setJointParam marshal c (JointName joint) paramName val) conn ps))"
proof (induction ps arbitrary: conn)
  case Nil
  show ?case by (rule yields.returns) simp
next
  case (Cons p ps)
  obtain paramName val where p: "p = (paramName, val)" by (cases p)
  have "stiffenStep marshal (StiffenParams conn joint (p # ps)) =
          Inl (StiffenParams (setJointParam marshal conn (JointName joint) paramName val) joint ps)"
    by (simp add: p)
  from yields.continues [OF this Cons.IH] show ?case by (simp add: p)
qed

lemma stiffen_yields:
  "yields (stiffenStep marshal) (StiffenDial dial joint ps) (stiffenUnit marshal dial joint ps)"
proof (cases dial)
  case (Inl err)
  then show ?thesis by (auto simp: stiffenUnit_def intro!: yields.returns)
next
  case (Inr conn)
  obtain e c1 where w: "Write conn (authPass @ delimiter) = (e, c1)" by fastforce
  have read: "yields (stiffenStep marshal) (StiffenRead c1 joint ps)
     (Some (foldl (\<lambda>c (paramName, val). setJointParam marshal c (JointName joint) paramName val)
              (snd (readResponse c1)) ps))"
    by (rule yields.continues [OF _ stiffen_params_yields]) (simp add: readResponse_spec)
  have auth: "yields (stiffenStep marshal) (StiffenAuth conn joint ps) (stiffenUnit marshal dial joint ps)"
  proof (cases e)
    case None
    with w have "stiffenStep marshal (StiffenAuth conn joint ps) = Inl (StiffenRead c1 joint ps)"
      by simp
    from yields.continues [OF this read] show ?thesis
      using w None Inr by (simp add: stiffenUnit_def readResponse_spec)
  next
    case (Some err)
    with w Inr show ?thesis by (auto simp: stiffenUnit_def intro!: yields.returns)
  qed
  show ?thesis by (rule yields.continues [OF _ auth]) (simp add: Inr)
qed

lemma unfreeze_barrier:
  assumes "(step (unfreezeStep marshal) (unfreezeStarts dial g))\<^sup>*\<^sup>* start s" and "at s = Back"
  shows "goroutines s = map Finished (snd (unfreezeAllCubes marshal dial g))"
proof -
  let ?result = "\<lambda>u. case u of UnfreezeDial d n \<Rightarrow> unfreezeUnit marshal d n | _ \<Rightarrow> None"
  have "goroutines s = map (\<lambda>u. Finished (?result u)) (unfreezeStarts dial g)"
  proof (rule barrier_results [OF assms])
    fix k assume "k < length (unfreezeStarts dial g)"
    then show "yields (unfreezeStep marshal) (unfreezeStarts dial g ! k) (?result (unfreezeStarts dial g ! k))"
      by (simp add: unfreezeStarts_def nth_enumerate_eq unfreeze_yields)
  qed
  then show ?thesis
    by (simp add: unfreezeStarts_def unfreezeAllCubes_def comp_def case_prod_unfold)
qed

lemma stiffen_barrier:
  assumes "(step (stiffenStep marshal) (stiffenStarts dial order g))\<^sup>*\<^sup>* start s" and "at s = Back"
  shows "goroutines s = map Finished (snd (stiffenAllJoints marshal dial order g))"
proof -
  let ?result = "\<lambda>u. case u of StiffenDial d j ps \<Rightarrow> stiffenUnit marshal d j ps | _ \<Rightarrow> None"
  have "goroutines s = map (\<lambda>u. Finished (?result u)) (stiffenStarts dial order g)"
  proof (rule barrier_results [OF assms])
    fix k assume "k < length (stiffenStarts dial order g)"
    then show "yields (stiffenStep marshal) (stiffenStarts dial order g ! k) (?result (stiffenStarts dial order g ! k))"
      by (simp add: stiffenStarts_def nth_enumerate_eq stiffen_yields)
  qed
  then show ?thesis
    by (simp add: stiffenStarts_def stiffenAllJoints_def comp_def case_prod_unfold)
qed

lemma detached_launched:
  "i \<le> length starts \<Longrightarrow>
   (detached ustep starts)\<^sup>*\<^sup>* start
     \<lparr>at = Launching i, counter = 0, goroutines = map Running (take i starts)\<rparr>"
proof (induction i)
  case 0
  show ?case by (simp add: start_def)
next
  case (Suc i)
  let ?s = "\<lparr>at = Launching i, counter = 0, goroutines = map Running (take i starts)\<rparr>
              :: ('a, 'b) batch"
  from Suc have r: "(detached ustep starts)\<^sup>*\<^sup>* start ?s" and lt: "i < length starts" by simp_all
  from detached.go [of ?s i starts ustep] lt
  have "detached ustep starts ?s
          \<lparr>at = Launching (Suc i), counter = 0, goroutines = map Running (take (Suc i) starts)\<rparr>"
    by (simp add: take_Suc_conv_app_nth)
  with r show ?case by (rule rtranclp.rtrancl_into_rtrancl)
qed

lemma detached_returns_early:
  "(detached ustep starts)\<^sup>*\<^sup>* start \<lparr>at = Back, counter = 0, goroutines = map Running starts\<rparr>"
proof -
  let ?s = "\<lparr>at = Launching (length starts), counter = 0, goroutines = map Running starts\<rparr>
              :: ('a, 'b) batch"
  from detached_launched [of "length starts" starts ustep]
  have r: "(detached ustep starts)\<^sup>*\<^sup>* start ?s" by simp
  from detached.leave [of ?s "length starts" starts ustep]
  have "detached ustep starts ?s \<lparr>at = Back, counter = 0, goroutines = map Running starts\<rparr>"
    by simp
  with r show ?thesis by (rule rtranclp.rtrancl_into_rtrancl)
qed

lemma detached_inv_reachable:
  "(detached ustep starts)\<^sup>*\<^sup>* start s \<Longrightarrow> detached_inv starts s"
proof (induction rule: rtranclp_induct)
  case base
  show ?case by (simp add: detached_inv_def start_def)
next
  case (step s s')
  from step(2,3) show ?case
    by (cases rule: detached.cases) (auto simp: detached_inv_def split: position.splits)
qed

lemma length_rotateStarts:
  "length (rotateStarts marshal unmarshal dial cubeName velocity) =
     length (getJointsForCube marshal unmarshal (dial 0) cubeName)"
  by (simp add: rotateStarts_def)

lemma weight_update:
  "k < length gs \<Longrightarrow>
   sum_list (map (weight m) (gs[k := g])) + weight m (gs ! k) = sum_list (map (weight m) gs) + weight m g"
proof (induction gs arbitrary: k)
  case Nil
  then show ?case by simp
next
  case (Cons a gs)
  show ?case
  proof (cases k)
    case 0
    then show ?thesis by simp
  next
    case (Suc j)
    with Cons.prems have "j < length gs" by simp
    from Cons.IH [OF this] Suc show ?thesis by simp
  qed
qed

lemma remaining_step:
  assumes dec: "\<And>u u'. ustep u = Inl u' \<Longrightarrow> m u' < m u"
    and st: "step ustep starts s s'" and inv: "barrier_inv starts s"
  shows "remaining m starts s' < remaining m starts s"
  using st
proof (cases rule: step.cases)
  case (add i)
  then show ?thesis by (simp add: remaining_def)
next
  case (go i)
  with inv have len: "length (goroutines s) = i" and lt: "i < length starts"
    by (simp_all add: barrier_inv_def)
  from lt have "drop i starts = starts ! i # drop (Suc i) starts"
    by (simp add: Cons_nth_drop_Suc)
  with go len lt show ?thesis by (simp add: remaining_def)
next
  case (wait i)
  then show ?thesis by (simp add: remaining_def)
next
  case wake
  then show ?thesis by (simp add: remaining_def)
next
  case (advance k u u')
  from weight_update [OF advance(2), of m "Running u'"] advance(3) dec [OF advance(4)]
  have "sum_list (map (weight m) ((goroutines s)[k := Running u'])) < sum_list (map (weight m) (goroutines s))"
    by simp
  with advance show ?thesis by (simp add: remaining_def)
next
  case (finish k u r)
  from weight_update [OF finish(2), of m "Finished r"] finish(3)
  have "sum_list (map (weight m) ((goroutines s)[k := Finished r])) < sum_list (map (weight m) (goroutines s))"
    by simp
  with finish show ?thesis by (simp add: remaining_def)
qed

lemma bounded_runs:
  assumes dec: "\<And>u u'. ustep u = Inl u' \<Longrightarrow> m u' < m u"
  shows "(step ustep starts ^^ n) start s \<Longrightarrow>
         n + remaining m starts s \<le> 2 * length starts + 2 + sum_list (map (\<lambda>u. Suc (m u)) starts)"
proof (induction n arbitrary: s)
  case 0
  then show ?case by (auto simp: remaining_def start_def)
next
  case (Suc n)
  then obtain s0 where r: "(step ustep starts ^^ n) start s0" and st: "step ustep starts s0 s"
    by auto
  from r have "(step ustep starts)\<^sup>*\<^sup>* start s0" by (rule relpowp_imp_rtranclp)
  then have inv: "barrier_inv starts s0" by (rule barrier_inv_reachable)
  have "remaining m starts s < remaining m starts s0"
  proof (rule remaining_step [of ustep m])
    show "\<And>u u'. ustep u = Inl u' \<Longrightarrow> m u' < m u" by (rule dec)
    show "step ustep starts s0 s" by (rule st)
    show "barrier_inv starts s0" by (rule inv)
  qed
  with Suc.IH [OF r] show ?case by simp
qed

lemma unfreezeLeft_dec: "unfreezeStep marshal u = Inl u' \<Longrightarrow> unfreezeLeft u' < unfreezeLeft u"
  by (cases u) (auto split: sum.splits prod.splits option.splits)

lemma stiffenLeft_dec: "stiffenStep marshal u = Inl u' \<Longrightarrow> stiffenLeft u' < stiffenLeft u"
proof (cases u)
  case (StiffenParams conn joint ps)
  assume "stiffenStep marshal u = Inl u'"
  with StiffenParams show ?thesis by (cases ps) auto
qed (auto split: sum.splits prod.splits option.splits)

lemma unfreeze_bounded:
  assumes "(step (unfreezeStep marshal) (unfreezeStarts dial g) ^^ n) start s"
  shows "n \<le> 6 * length (globalCubeList g) + 2"
proof -
  have "sum_list (map (\<lambda>u. Suc (unfreezeLeft u)) (unfreezeStarts dial g)) = 4 * length (globalCubeList g)"
    by (simp add: unfreezeStarts_def comp_def case_prod_unfold sum_list_triv)
  moreover have "n + remaining unfreezeLeft (unfreezeStarts dial g) s
      \<le> 2 * length (unfreezeStarts dial g) + 2 +
         sum_list (map (\<lambda>u. Suc (unfreezeLeft u)) (unfreezeStarts dial g))"
  proof (rule bounded_runs [of "unfreezeStep marshal" unfreezeLeft])
    show "\<And>u u'. unfreezeStep marshal u = Inl u' \<Longrightarrow> unfreezeLeft u' < unfreezeLeft u"
      by (rule unfreezeLeft_dec)
    show "(step (unfreezeStep marshal) (unfreezeStarts dial g) ^^ n) start s" by (rule assms)
  qed
  ultimately show ?thesis by (simp add: unfreezeStarts_def)
qed

lemma stiffen_bounded:
  assumes "(step (stiffenStep marshal) (stiffenStarts dial order g) ^^ n) start s"
  shows "n \<le> 2 * length (globalCubeLinks g) + 2 +
             (\<Sum>i\<leftarrow>[0..<length (globalCubeLinks g)]. length (order i) + 4)"
proof -
  have "map (\<lambda>u. Suc (stiffenLeft u)) (stiffenStarts dial order g) =
        map (\<lambda>i. length (order i) + 4) [0..<length (globalCubeLinks g)]"
    by (rule nth_equalityI) (simp_all add: stiffenStarts_def nth_enumerate_eq)
  moreover have "n + remaining stiffenLeft (stiffenStarts dial order g) s
      \<le> 2 * length (stiffenStarts dial order g) + 2 +
         sum_list (map (\<lambda>u. Suc (stiffenLeft u)) (stiffenStarts dial order g))"
  proof (rule bounded_runs [of "stiffenStep marshal" stiffenLeft])
    show "\<And>u u'. stiffenStep marshal u = Inl u' \<Longrightarrow> stiffenLeft u' < stiffenLeft u"
      by (rule stiffenLeft_dec)
    show "(step (stiffenStep marshal) (stiffenStarts dial order g) ^^ n) start s" by (rule assms)
  qed
  ultimately show ?thesis by (simp add: stiffenStarts_def)
qed

section \<open>What the decoder returns when a read fails\<close>

text \<open>
  The second result of \<^verbatim>\<open>readResponse\<close> is \<^verbatim>\<open>nil\<close> whatever the connection
  delivers, also when the first read already fails. Its text is made of the bytes
  received before the first failing read, up to the last \<open>-\<close> among them, with the
  delimiter removed and the white space around trimmed.
\<close>

lemma readResponse_error_nil: "snd (fst (readResponse c)) = None"
  by (simp add: readResponse_spec)

lemma readResponse_text:
  "fst (fst (readResponse c)) =
     TrimSpace (ReplaceAll (uptoLast CHR ''-'' (concat (received (rd c)))) delimiter [])"
  by (simp add: readResponse_spec)

lemma readResponse_at_once_failing:
  "readResponse \<lparr>rd = [Failed EOF], wr = [], sent = []\<rparr>
     = (([], None), \<lparr>rd = [], wr = [], sent = []\<rparr>)"
  by (simp add: readResponse_spec uptoLast_def ReplaceAll.simps TrimSpace_def
        TrimLeft.simps TrimRight.simps leadingSpace_def trailingSpace_def spaceRunes_def)

text \<open>
  C1. The claim is that \<^verbatim>\<open>readResponse\<close> returns the content read so far, with a
  \<^verbatim>\<open>nil\<close> error, also when a read fails before any delimiter was seen. Here the
  connection delivers \<open>hello\<close> and then the read times out. \<^verbatim>\<open>ReadString\<close> returns
  the bytes read, \<open>hello\<close>, together with the error; the loop leaves at the error,
  before \<^verbatim>\<open>builder.WriteString(line)\<close>, and these bytes are lost: the text returned
  is empty. The error returned is \<^verbatim>\<open>nil\<close>, as claimed.
\<close>

theorem readResponse_loses_partial_line:
  "concat (received [Chunk ''hello'', Failed ReadTimeout]) = ''hello'' \<and>
   fst (ReadString \<lparr>buf = [], src = \<lparr>rd = [Chunk ''hello'', Failed ReadTimeout],
                                       wr = [], sent = []\<rparr>\<rparr> CHR ''-'')
     = (''hello'', Some ReadTimeout) \<and>
   readResponse \<lparr>rd = [Chunk ''hello'', Failed ReadTimeout], wr = [], sent = []\<rparr>
     = (([], None), \<lparr>rd = [], wr = [], sent = []\<rparr>)"
proof (intro conjI)
  show "concat (received [Chunk ''hello'', Failed ReadTimeout]) = ''hello''"
    by simp
  show "fst (ReadString \<lparr>buf = [], src = \<lparr>rd = [Chunk ''hello'', Failed ReadTimeout],
                                       wr = [], sent = []\<rparr>\<rparr> CHR ''-'')
     = (''hello'', Some ReadTimeout)"
    by (subst ReadString_fail) (simp_all add: avail_def)
  show "readResponse \<lparr>rd = [Chunk ''hello'', Failed ReadTimeout], wr = [], sent = []\<rparr>
     = (([], None), \<lparr>rd = [], wr = [], sent = []\<rparr>)"
    by (simp add: readResponse_spec uptoLast_def ReplaceAll.simps TrimSpace_def
          TrimLeft.simps TrimRight.simps leadingSpace_def trailingSpace_def spaceRunes_def)
qed

section \<open>The loop does not stop at the delimiter\<close>

text \<open>
  A line that \<^verbatim>\<open>ReadString('-')\<close> returns without an error ends at the first \<open>-\<close> it
  meets, so it holds one \<open>-\<close>; the delimiter holds three. The test
  \<^verbatim>\<open>strings.Contains(line, delimiter)\<close> of the loop therefore never succeeds.
\<close>

lemma ReadString_line_no_delimiter:
  assumes "ReadString r CHR ''-'' = ((line, None), r')"
  shows "\<not> Contains line delimiter"
proof (cases "CHR ''-'' \<in> set (avail r)")
  case True
  from ReadString_ok [OF True] assms show ?thesis
    by (auto simp: line_no_delimiter)
next
  case False
  from ReadString_fail [OF False] assms show ?thesis by simp
qed

text \<open>
  C2. The claim is that the loop stops reading as soon as the delimiter has been seen.
  Here the connection delivers a framed message, then more bytes, then the read
  times out. The loop reads on after the delimiter until the read fails: the later
  bytes are part of the returned text and nothing is left on the connection.
\<close>

theorem readResponse_reads_past_delimiter:
  "readResponse \<lparr>rd = [Chunk ''{}<???DONE???---'', Chunk ''late-'', Failed ReadTimeout],
                  wr = [], sent = []\<rparr>
     = ((''{}late-'', None), \<lparr>rd = [], wr = [], sent = []\<rparr>)"
  by code_simp

section \<open>Framing round trip\<close>

text \<open>
  C3. Let \<^verbatim>\<open>json.Marshal\<close> encode a command as the object text \<open>j\<close>, which does not
  contain the delimiter. \<^verbatim>\<open>sendJSONMessage\<close> writes \<open>j\<close> followed at once by the
  delimiter. When these bytes arrive at a peer, in whatever chunks, and the read after
  them fails, \<^verbatim>\<open>readResponse\<close> returns exactly \<open>j\<close>, and no error.
\<close>

theorem framing_round_trip:
  assumes "marshal msg = Inr j" and "\<not> Contains j delimiter" and "objectText j"
    and "sendJSONMessage marshal c msg = (None, c')"
    and "concat chunks = last (sent c')"
  shows "fst (readResponse (peer\<lparr>rd := map Chunk chunks @ Failed e # rest\<rparr>)) = (j, None)"
proof -
  from assms(1,4) have "sent c' = sent c @ [j @ delimiter]"
    by (auto simp: sendJSONMessage_def Write_def split: list.splits option.splits)
  with assms(5) have cc: "concat chunks = j @ delimiter" by simp
  have r: "concat (received (map Chunk cs @ Failed e # rest)) = concat cs" for cs
    by (induction cs) auto
  have "uptoLast CHR ''-'' (j @ delimiter) = j @ delimiter"
    by (simp add: uptoLast_def delimiter_def)
  then show ?thesis
    using assms(2,3) by (simp add: readResponse_spec r cc ReplaceAll_framed TrimSpace_object)
qed

theorem framing_round_trip_witness:
  "(\<lambda>m. Inr m :: error + string) ''{\"a\":-1}'' = Inr ''{\"a\":-1}'' \<and>
   \<not> Contains ''{\"a\":-1}'' delimiter \<and> objectText ''{\"a\":-1}'' \<and>
   sendJSONMessage (\<lambda>m. Inr m) \<lparr>rd = [], wr = [None], sent = []\<rparr> ''{\"a\":-1}''
     = (None, \<lparr>rd = [], wr = [], sent = [''{\"a\":-1}<???DONE???---'']\<rparr>) \<and>
   concat [''{\"a\":-1}<???DO'', ''NE???--'', ''-'']
     = last (sent \<lparr>rd = [], wr = [], sent = [''{\"a\":-1}<???DONE???---'']\<rparr>) \<and>
   fst (readResponse (\<lparr>rd = [], wr = [], sent = []\<rparr>
          \<lparr>rd := map Chunk [''{\"a\":-1}<???DO'', ''NE???--'', ''-''] @ Failed ReadTimeout # []\<rparr>))
     = (''{\"a\":-1}'', None)"
proof -
  have 1: "(\<lambda>m. Inr m :: error + string) ''{\"a\":-1}'' = Inr ''{\"a\":-1}''" by simp
  have 2: "\<not> Contains ''{\"a\":-1}'' delimiter" by (simp add: delimiter_def)
  have 3: "objectText ''{\"a\":-1}''" by (simp add: objectText_def)
  have 4: "sendJSONMessage (\<lambda>m. Inr m) \<lparr>rd = [], wr = [None], sent = []\<rparr> ''{\"a\":-1}''
     = (None, \<lparr>rd = [], wr = [], sent = [''{\"a\":-1}<???DONE???---'']\<rparr>)"
    by (simp add: sendJSONMessage_def Write_def delimiter_def)
  have 5: "concat [''{\"a\":-1}<???DO'', ''NE???--'', ''-'']
     = last (sent \<lparr>rd = [], wr = [], sent = [''{\"a\":-1}<???DONE???---'']\<rparr>)" by simp
  from framing_round_trip [OF 1 2 3 4 5] 1 2 3 4 5 show ?thesis by blast
qed

section \<open>Chunking of the stream\<close>

text \<open>
  C4. The result of \<^verbatim>\<open>readResponse\<close>, and the connection it leaves, are the same
  whether the bytes arrive in the chunks \<open>chunks\<close> or in one chunk, and the same
  whether \<open>data\<close> arrives one byte per read or in one chunk.
\<close>

theorem chunking_irrelevant:
  "readResponse (c\<lparr>rd := map Chunk chunks @ tail\<rparr>) =
     readResponse (c\<lparr>rd := Chunk (concat chunks) # tail\<rparr>) \<and>
   readResponse (c\<lparr>rd := map (\<lambda>b. Chunk [b]) data @ tail\<rparr>) =
     readResponse (c\<lparr>rd := Chunk data # tail\<rparr>)"
proof -
  have r: "concat (received (map Chunk cs @ tail)) = concat cs @ concat (received tail)" for cs
    by (induction cs) auto
  have a: "after_failure (map Chunk cs @ tail) = after_failure tail" for cs
    by (induction cs) auto
  have one: "readResponse (c\<lparr>rd := map Chunk cs @ tail\<rparr>) =
     readResponse (c\<lparr>rd := Chunk (concat cs) # tail\<rparr>)" for cs
    by (simp add: readResponse_spec r a)
  have "map (\<lambda>b. Chunk [b]) data = map Chunk (map (\<lambda>b. [b]) data)" by simp
  moreover have "concat (map (\<lambda>b. [b]) data) = data" by (induction data) auto
  ultimately show ?thesis using one [of chunks] one [of "map (\<lambda>b. [b]) data"]
    by (simp add: comp_def)
qed

section \<open>The barrier of a batch\<close>

text \<open>
  C5. \<^verbatim>\<open>unfreezeAllCubes\<close> starts one goroutine for each name in the registry,
  \<^verbatim>\<open>stiffenAllJoints\<close> one for each link. In every state that the batch can reach,
  whatever the order of the steps and whatever the network does: when the batch
  function is back in its caller, every one of these goroutines has ended, and the
  result of each is the result it has when it runs alone on its own connection, so a
  goroutine that fails ends without a second attempt and changes nothing for the
  others; when the batch function is not yet back, a step is possible, so no failure
  blocks the batch; and no run is longer than a bound fixed by the number of items.
\<close>

theorem fan_out_barrier:
  "((step (unfreezeStep marshal) (unfreezeStarts dial g))\<^sup>*\<^sup>* start s \<longrightarrow>
      (at s = Back \<longrightarrow> goroutines s = map Finished (snd (unfreezeAllCubes marshal dial g))) \<and>
      (at s \<noteq> Back \<longrightarrow> (\<exists>s'. step (unfreezeStep marshal) (unfreezeStarts dial g) s s'))) \<and>
   ((step (unfreezeStep marshal) (unfreezeStarts dial g) ^^ n) start s \<longrightarrow>
      n \<le> 6 * length (globalCubeList g) + 2) \<and>
   ((step (stiffenStep marshal) (stiffenStarts dial order g))\<^sup>*\<^sup>* start t \<longrightarrow>
      (at t = Back \<longrightarrow> goroutines t = map Finished (snd (stiffenAllJoints marshal dial order g))) \<and>
      (at t \<noteq> Back \<longrightarrow> (\<exists>t'. step (stiffenStep marshal) (stiffenStarts dial order g) t t'))) \<and>
   ((step (stiffenStep marshal) (stiffenStarts dial order g) ^^ n) start t \<longrightarrow>
      n \<le> 2 * length (globalCubeLinks g) + 2 +
          (\<Sum>i\<leftarrow>[0..<length (globalCubeLinks g)]. length (order i) + 4))"
  using unfreeze_barrier [of marshal dial g s] stiffen_barrier [of marshal dial order g t]
    no_deadlock [of "unfreezeStep marshal" "unfreezeStarts dial g" s]
    no_deadlock [of "stiffenStep marshal" "stiffenStarts dial order g" t]
    unfreeze_bounded [where marshal = marshal and dial = dial and g = g and n = n and s = s]
    stiffen_bounded [where marshal = marshal and dial = dial and order = order and g = g
      and n = n and s = t]
  by blast

theorem fan_out_barrier_witness:
  "(step (unfreezeStep (\<lambda>m :: int Message. Inr ''{}''))
      (unfreezeStarts (\<lambda>i. if i = 0 then Inl ConnectFailure
                            else Inr \<lparr>rd = [], wr = [Some WriteFailure], sent = []\<rparr>)
         \<lparr>globalCubeList = [''a_BASE'', ''b_BASE''], globalCubeLinks = []\<rparr>))\<^sup>*\<^sup>*
     start
     \<lparr>at = Back, counter = 0,
      goroutines = [Finished None, Finished (Some \<lparr>rd = [], wr = [], sent = []\<rparr>)]\<rparr> \<and>
   map Finished (snd (unfreezeAllCubes (\<lambda>m :: int Message. Inr ''{}'')
      (\<lambda>i. if i = 0 then Inl ConnectFailure
            else Inr \<lparr>rd = [], wr = [Some WriteFailure], sent = []\<rparr>)
      \<lparr>globalCubeList = [''a_BASE'', ''b_BASE''], globalCubeLinks = []\<rparr>))
     = [Finished None, Finished (Some \<lparr>rd = [], wr = [], sent = []\<rparr>) :: (unfreezing, Conn option) goroutine] \<and>
   (step (stiffenStep (\<lambda>m :: int Message. Inr ''{}''))
      (stiffenStarts (\<lambda>i. Inl ConnectFailure) (\<lambda>i. [(''motor_enable'', 1)])
         \<lparr>globalCubeList = [],
          globalCubeLinks = [\<lparr>JointName = ''j1'', CubeA = ''A'', CubeB = ''B''\<rparr>]\<rparr>))\<^sup>*\<^sup>*
     start \<lparr>at = Back, counter = 0, goroutines = [Finished None]\<rparr> \<and>
   map Finished (snd (stiffenAllJoints (\<lambda>m :: int Message. Inr ''{}'')
      (\<lambda>i. Inl ConnectFailure) (\<lambda>i. [(''motor_enable'', 1)])
      \<lparr>globalCubeList = [],
       globalCubeLinks = [\<lparr>JointName = ''j1'', CubeA = ''A'', CubeB = ''B''\<rparr>]\<rparr>))
     = [Finished None :: (int stiffening, Conn option) goroutine]"
proof -
  let ?m = "(\<lambda>m. Inr ''{}'') :: int Message \<Rightarrow> error + string"
  let ?c = "\<lparr>rd = [], wr = [Some WriteFailure], sent = []\<rparr>"
  let ?c' = "\<lparr>rd = [], wr = [], sent = []\<rparr>"
  let ?dial = "\<lambda>i::nat. if i = 0 then Inl ConnectFailure else Inr ?c"
  let ?g = "\<lparr>globalCubeList = [''a_BASE'', ''b_BASE''], globalCubeLinks = []\<rparr>"
  let ?U = "unfreezeStep ?m"
  let ?u0 = "UnfreezeDial (Inl ConnectFailure) ''a_BASE''"
  let ?u1 = "UnfreezeDial (Inr ?c) ''b_BASE''"
  let ?S = "[?u0, ?u1]"
  let ?s1 = "\<lparr>at = Starting 0, counter = 1, goroutines = []\<rparr> :: (unfreezing, Conn option) batch"
  let ?s2 = "\<lparr>at = Launching 1, counter = 1, goroutines = [Running ?u0]\<rparr> :: (unfreezing, Conn option) batch"
  let ?s3 = "\<lparr>at = Starting 1, counter = 2, goroutines = [Running ?u0]\<rparr> :: (unfreezing, Conn option) batch"
  let ?s4 = "\<lparr>at = Launching 2, counter = 2, goroutines = [Running ?u0, Running ?u1]\<rparr> :: (unfreezing, Conn option) batch"
  let ?s5 = "\<lparr>at = Waiting, counter = 2, goroutines = [Running ?u0, Running ?u1]\<rparr> :: (unfreezing, Conn option) batch"
  let ?s6 = "\<lparr>at = Waiting, counter = 1, goroutines = [Finished None, Running ?u1]\<rparr> :: (unfreezing, Conn option) batch"
  let ?s7 = "\<lparr>at = Waiting, counter = 1, goroutines = [Finished None, Running (UnfreezeAuth ?c ''b_BASE'')]\<rparr> :: (unfreezing, Conn option) batch"
  let ?s8 = "\<lparr>at = Waiting, counter = 0, goroutines = [Finished None, Finished (Some ?c')]\<rparr> :: (unfreezing, Conn option) batch"
  let ?s9 = "\<lparr>at = Back, counter = 0, goroutines = [Finished None, Finished (Some ?c')]\<rparr> :: (unfreezing, Conn option) batch"
  have S: "unfreezeStarts ?dial ?g = ?S"
    by (simp add: unfreezeStarts_def)
  have 1: "step ?U ?S start ?s1"
    using step.add [of start 0 ?S ?U] by (simp add: start_def)
  have 2: "step ?U ?S ?s1 ?s2"
    using step.go [of ?s1 0 ?U ?S] by simp
  have 3: "step ?U ?S ?s2 ?s3"
    using step.add [of ?s2 1 ?S ?U] by simp
  have 4: "step ?U ?S ?s3 ?s4"
    using step.go [of ?s3 1 ?U ?S] by (simp add: numeral_2_eq_2)
  have 5: "step ?U ?S ?s4 ?s5"
    using step.wait [of ?s4 2 ?S ?U] by (simp add: numeral_2_eq_2)
  have 6: "step ?U ?S ?s5 ?s6"
    using step.finish [of 0 ?s5 ?u0 ?U None ?S] by simp
  have 7: "step ?U ?S ?s6 ?s7"
    using step.advance [of 1 ?s6 ?u1 ?U "UnfreezeAuth ?c ''b_BASE''" ?S] by simp
  have 8: "step ?U ?S ?s7 ?s8"
    using step.finish [of 1 ?s7 "UnfreezeAuth ?c ''b_BASE''" ?U "Some ?c'" ?S]
    by (simp add: Write_def)
  have 9: "step ?U ?S ?s8 ?s9"
    using step.wake [of ?s8 ?U ?S] by simp
  have reach: "(step ?U (unfreezeStarts ?dial ?g))\<^sup>*\<^sup>* start ?s9"
    unfolding S
    using 1 2 3 4 5 6 7 8 9 by (meson rtranclp.rtrancl_into_rtrancl rtranclp.rtrancl_refl)
  let ?down = "\<lambda>i::nat. Inl ConnectFailure :: error + Conn"
  let ?order = "\<lambda>i::nat. [(''motor_enable'', 1 :: int)]"
  let ?h = "\<lparr>globalCubeList = [],
            globalCubeLinks = [\<lparr>JointName = ''j1'', CubeA = ''A'', CubeB = ''B''\<rparr>]\<rparr>"
  let ?V = "stiffenStep ?m"
  let ?v0 = "StiffenDial (Inl ConnectFailure) \<lparr>JointName = ''j1'', CubeA = ''A'', CubeB = ''B''\<rparr>
               [(''motor_enable'', 1 :: int)]"
  let ?T = "[?v0]"
  let ?t1 = "\<lparr>at = Starting 0, counter = 1, goroutines = []\<rparr> :: (int stiffening, Conn option) batch"
  let ?t2 = "\<lparr>at = Launching 1, counter = 1, goroutines = [Running ?v0]\<rparr> :: (int stiffening, Conn option) batch"
  let ?t3 = "\<lparr>at = Waiting, counter = 1, goroutines = [Running ?v0]\<rparr> :: (int stiffening, Conn option) batch"
  let ?t4 = "\<lparr>at = Waiting, counter = 0, goroutines = [Finished None]\<rparr> :: (int stiffening, Conn option) batch"
  let ?t5 = "\<lparr>at = Back, counter = 0, goroutines = [Finished None]\<rparr> :: (int stiffening, Conn option) batch"
  have T: "stiffenStarts ?down ?order ?h = ?T"
    by (simp add: stiffenStarts_def)
  have a: "step ?V ?T start ?t1"
    using step.add [of start 0 ?T ?V] by (simp add: start_def)
  have b: "step ?V ?T ?t1 ?t2"
    using step.go [of ?t1 0 ?V ?T] by simp
  have c: "step ?V ?T ?t2 ?t3"
    using step.wait [of ?t2 1 ?T ?V] by simp
  have d: "step ?V ?T ?t3 ?t4"
    using step.finish [of 0 ?t3 ?v0 ?V None ?T] by simp
  have e: "step ?V ?T ?t4 ?t5"
    using step.wake [of ?t4 ?V ?T] by simp
  have reach': "(step ?V (stiffenStarts ?down ?order ?h))\<^sup>*\<^sup>* start ?t5"
    unfolding T
    using a b c d e by (meson rtranclp.rtrancl_into_rtrancl rtranclp.rtrancl_refl)
  from fan_out_barrier [where marshal = ?m and dial = ?dial and g = ?g and s = ?s9] reach
  have "goroutines ?s9 = map Finished (snd (unfreezeAllCubes ?m ?dial ?g))" by simp
  then have u: "map Finished (snd (unfreezeAllCubes ?m ?dial ?g))
       = [Finished None, Finished (Some ?c') :: (unfreezing, Conn option) goroutine]" by simp
  from fan_out_barrier [where marshal = ?m and dial = ?down and g = ?h and t = ?t5
      and order = ?order] reach'
  have "goroutines ?t5 = map Finished (snd (stiffenAllJoints ?m ?down ?order ?h))" by simp
  then have v: "map Finished (snd (stiffenAllJoints ?m ?down ?order ?h))
       = [Finished None :: (int stiffening, Conn option) goroutine]" by simp
  from reach u reach' v show ?thesis by blast
qed

section \<open>The registry only grows\<close>

text \<open>
  C6. Along every run, from every state, each of the two lists in the state before
  is a prefix of the list in the state after: no element is removed, replaced or
  moved. The length of each list grows by the number of appends of the calls of the
  run: one for a spawn that succeeds, one for a single link that succeeds, and for a
  chain command that succeeds one per consecutive pair of each chain.
  \<^verbatim>\<open>despawnAllCubes\<close> leaves the registry as it is.
\<close>

theorem registry_append_only:
  "prefix (globalCubeList g) (globalCubeList (run marshal g calls)) \<and>
   prefix (globalCubeLinks g) (globalCubeLinks (run marshal g calls)) \<and>
   length (globalCubeList (run marshal g calls)) =
     length (globalCubeList g) + (\<Sum>c\<leftarrow>calls. cubeAppends marshal c) \<and>
   length (globalCubeLinks (run marshal g calls)) =
     length (globalCubeLinks g) + (\<Sum>c\<leftarrow>calls. linkAppends marshal c) \<and>
   fst (despawnAllCubes marshal dial g) = g"
  using run_extends [of g marshal calls] run_lengths [of marshal g calls]
  by (simp add: despawnAllCubes_def)

section \<open>Registration of a spawned cube\<close>

text \<open>
  C7. \<^verbatim>\<open>spawnCube\<close> appends the name of the cube with the suffix \<open>_BASE\<close> to
  \<^verbatim>\<open>globalCubeList\<close>, in one step and changing nothing else, if the dial, the write
  of the password, the read of the answer and the write of the spawn command all
  succeed; otherwise it leaves the registry unchanged. The read of the answer never
  fails, so this is the case exactly when the dial and the two writes succeed and the
  command can be encoded.
\<close>

theorem spawnCube_registers_iff_success:
  "spawnCube marshal dial cube g =
     (if spawnSucceeds marshal dial cube
      then g\<lparr>globalCubeList := globalCubeList g @ [Name cube @ ''_BASE'']\<rparr>
      else g) \<and>
   spawnSucceeds marshal dial cube = commandSucceeds marshal dial (spawnMessage cube)"
  by (simp add: spawnCube_eq spawnSucceeds_iff commandSucceeds_iff)

theorem spawnCube_registers_iff_success_witness:
  "spawnCube (\<lambda>m. Inr ''{}'') (Inr \<lparr>rd = [], wr = [None, None], sent = []\<rparr>)
     \<lparr>Name = ''head1'', Position = [0, 128, 0 :: int]\<rparr>
     \<lparr>globalCubeList = [''neck_BASE''], globalCubeLinks = []\<rparr>
     = \<lparr>globalCubeList = [''neck_BASE'', ''head1_BASE''], globalCubeLinks = []\<rparr> \<and>
   spawnCube (\<lambda>m. Inr ''{}'') (Inr \<lparr>rd = [], wr = [None, Some WriteFailure], sent = []\<rparr>)
     \<lparr>Name = ''head1'', Position = [0, 128, 0 :: int]\<rparr>
     \<lparr>globalCubeList = [''neck_BASE''], globalCubeLinks = []\<rparr>
     = \<lparr>globalCubeList = [''neck_BASE''], globalCubeLinks = []\<rparr>"
proof -
  let ?m = "(\<lambda>m. Inr ''{}'') :: int Message \<Rightarrow> error + string"
  let ?cube = "\<lparr>Name = ''head1'', Position = [0, 128, 0 :: int]\<rparr>"
  let ?g = "\<lparr>globalCubeList = [''neck_BASE''], globalCubeLinks = []\<rparr>"
  have "commandSucceeds ?m (Inr \<lparr>rd = [], wr = [None, None], sent = []\<rparr>) (spawnMessage ?cube)"
    by (simp add: commandSucceeds_def)
  moreover have "\<not> commandSucceeds ?m (Inr \<lparr>rd = [], wr = [None, Some WriteFailure], sent = []\<rparr>) (spawnMessage ?cube)"
    by (simp add: commandSucceeds_def)
  ultimately show ?thesis
    using spawnCube_registers_iff_success [of ?m "Inr \<lparr>rd = [], wr = [None, None], sent = []\<rparr>" ?cube ?g]
      spawnCube_registers_iff_success [of ?m "Inr \<lparr>rd = [], wr = [None, Some WriteFailure], sent = []\<rparr>" ?cube ?g]
    by simp
qed

section \<open>Chain expansion\<close>

text \<open>
  C8. When \<^verbatim>\<open>linkCubeChains\<close> returns \<^verbatim>\<open>nil\<close>, it has appended to \<^verbatim>\<open>globalCubeLinks\<close>,
  chain after chain, the links contributed by each chain and nothing else. A chain of
  \<open>K\<close> names contributes \<open>K - 1\<close> links (none when the chain is empty); the \<open>i\<close>-th
  joins the names at positions \<open>i\<close> and \<open>i + 1\<close> and is named
  \<open>joint_<type>_<A>_<B>\<close>. The function takes no joint name: the name is always the
  synthesized one.
\<close>

theorem linkCubeChains_expansion:
  assumes "linkCubeChains marshal dial chs jointType jointParams g = (None, g')"
  shows "globalCubeLinks g' = globalCubeLinks g @ concat (map (contributed jointType) chs) \<and>
         globalCubeList g' = globalCubeList g \<and>
         (\<forall>chain. length (contributed jointType chain) = length chain - 1 \<and>
            (\<forall>i < length chain - 1.
               contributed jointType chain ! i =
                 \<lparr>JointName = ''joint_'' @ jointType @ ''_'' @ chain ! i @ ''_'' @ chain ! (i + 1),
                  CubeA = chain ! i, CubeB = chain ! (i + 1)\<rparr>))"
  using linkCubeChains_ok [OF assms]
  by (simp add: chainsLoop_contributed) (simp add: contributed_eq chainLink_def)

theorem linkCubeChains_expansion_witness:
  "linkCubeChains (\<lambda>m. Inr ''{}'') (Inr \<lparr>rd = [], wr = [None, None], sent = []\<rparr>)
       [[''A'', ''B'', ''C'']] ''hinge'' (Map.empty :: string \<rightharpoonup> int)
       \<lparr>globalCubeList = [], globalCubeLinks = []\<rparr>
     = (None, \<lparr>globalCubeList = [], globalCubeLinks =
          [\<lparr>JointName = ''joint_hinge_A_B'', CubeA = ''A'', CubeB = ''B''\<rparr>,
           \<lparr>JointName = ''joint_hinge_B_C'', CubeA = ''B'', CubeB = ''C''\<rparr>]\<rparr>) \<and>
   length (contributed ''hinge'' [''A'', ''B'', ''C'']) = 2 \<and>
   contributed ''hinge'' [''A'', ''B'', ''C''] ! 0 =
     \<lparr>JointName = ''joint_hinge_A_B'', CubeA = ''A'', CubeB = ''B''\<rparr> \<and>
   contributed ''hinge'' [''A'', ''B'', ''C''] ! 1 =
     \<lparr>JointName = ''joint_hinge_B_C'', CubeA = ''B'', CubeB = ''C''\<rparr>"
proof -
  let ?g' = "\<lparr>globalCubeList = [], globalCubeLinks =
          [\<lparr>JointName = ''joint_hinge_A_B'', CubeA = ''A'', CubeB = ''B''\<rparr>,
           \<lparr>JointName = ''joint_hinge_B_C'', CubeA = ''B'', CubeB = ''C''\<rparr>]\<rparr>"
  have run: "linkCubeChains (\<lambda>m. Inr ''{}'') (Inr \<lparr>rd = [], wr = [None, None], sent = []\<rparr>)
       [[''A'', ''B'', ''C'']] ''hinge'' (Map.empty :: string \<rightharpoonup> int)
       \<lparr>globalCubeList = [], globalCubeLinks = []\<rparr> = (None, ?g')"
    by (simp add: linkCubeChains_def Write_def sendJSONMessage_def readResponse_spec
          chainLoop.simps Let_def)
  from linkCubeChains_expansion [OF run]
  have "length (contributed ''hinge'' [''A'', ''B'', ''C'']) = 2"
    and "\<forall>i<2. contributed ''hinge'' [''A'', ''B'', ''C''] ! i =
         \<lparr>JointName = ''joint_'' @ ''hinge'' @ ''_'' @ [''A'', ''B'', ''C''] ! i @ ''_'' @ [''A'', ''B'', ''C''] ! (i + 1),
          CubeA = [''A'', ''B'', ''C''] ! i, CubeB = [''A'', ''B'', ''C''] ! (i + 1)\<rparr>"
    by simp_all
  then show ?thesis using run by simp
qed

section \<open>Link lookup\<close>

text \<open>
  C9. \<^verbatim>\<open>findClosestJoint\<close> returns the joint name of the first link, in the order of
  \<^verbatim>\<open>globalCubeLinks\<close>, one of whose two ends is the given name, and prints the line
  for a found joint; when no link has the name as an end it returns the empty string
  and prints the line saying that no joint was found.
\<close>

theorem findClosestJoint_first_match:
  "(\<forall>i < length (globalCubeLinks g).
      touches (globalCubeLinks g ! i) x \<and> (\<forall>j<i. \<not> touches (globalCubeLinks g ! j) x) \<longrightarrow>
      findClosestJoint x g = (JointName (globalCubeLinks g ! i), [foundLine (globalCubeLinks g ! i)])) \<and>
   ((\<forall>l \<in> set (globalCubeLinks g). \<not> touches l x) \<longrightarrow>
      findClosestJoint x g = ([], [noJointLine x]))"
  by (simp add: findClosestJoint_def findLoop_first findLoop_none)

theorem findClosestJoint_first_match_witness:
  "fst (findClosestJoint ''A''
     \<lparr>globalCubeList = [],
      globalCubeLinks = [\<lparr>JointName = ''j1'', CubeA = ''A'', CubeB = ''B''\<rparr>,
                         \<lparr>JointName = ''j2'', CubeA = ''A'', CubeB = ''C''\<rparr>]\<rparr>) = ''j1'' \<and>
   findClosestJoint ''D''
     \<lparr>globalCubeList = [],
      globalCubeLinks = [\<lparr>JointName = ''j1'', CubeA = ''A'', CubeB = ''B''\<rparr>,
                         \<lparr>JointName = ''j2'', CubeA = ''A'', CubeB = ''C''\<rparr>]\<rparr>
     = ([], [noJointLine ''D''])"
proof -
  let ?g = "\<lparr>globalCubeList = [],
      globalCubeLinks = [\<lparr>JointName = ''j1'', CubeA = ''A'', CubeB = ''B''\<rparr>,
                         \<lparr>JointName = ''j2'', CubeA = ''A'', CubeB = ''C''\<rparr>]\<rparr>"
  from findClosestJoint_first_match [of ?g "''A''", THEN conjunct1, rule_format, of 0]
  have "findClosestJoint ''A'' ?g = (JointName (globalCubeLinks ?g ! 0), [foundLine (globalCubeLinks ?g ! 0)])"
    by (simp add: touches_def)
  moreover from findClosestJoint_first_match [of ?g "''D''"]
  have "findClosestJoint ''D'' ?g = ([], [noJointLine ''D''])"
    by (simp add: touches_def)
  ultimately show ?thesis by simp
qed

section \<open>The goroutines of rotateCubeJoints are not awaited\<close>

text \<open>
  C10. \<^verbatim>\<open>rotateCubeJoints\<close> starts one goroutine for each joint that
  \<^verbatim>\<open>getJointsForCube\<close> returned, and uses no wait group. There is a run in which the
  function is back in its caller while every goroutine is still before its first
  statement; and whenever it is back, it has started as many goroutines as there are
  joints.
\<close>

theorem rotateCubeJoints_returns_early:
  "(\<exists>s. (detached (rotateStep marshal) (rotateStarts marshal unmarshal dial cubeName velocity))\<^sup>*\<^sup>* start s \<and>
        at s = Back \<and>
        goroutines s = map Running (rotateStarts marshal unmarshal dial cubeName velocity)) \<and>
   (\<forall>s. (detached (rotateStep marshal) (rotateStarts marshal unmarshal dial cubeName velocity))\<^sup>*\<^sup>* start s \<and>
        at s = Back \<longrightarrow>
        length (goroutines s) = length (getJointsForCube marshal unmarshal (dial 0) cubeName))"
proof (intro conjI allI impI)
  show "\<exists>s. (detached (rotateStep marshal) (rotateStarts marshal unmarshal dial cubeName velocity))\<^sup>*\<^sup>* start s \<and>
        at s = Back \<and>
        goroutines s = map Running (rotateStarts marshal unmarshal dial cubeName velocity)"
    using detached_returns_early [of "rotateStep marshal" "rotateStarts marshal unmarshal dial cubeName velocity"]
    by (intro exI [of _ "\<lparr>at = Back, counter = 0, goroutines = map Running (rotateStarts marshal unmarshal dial cubeName velocity)\<rparr>"]) simp
next
  fix s
  assume "(detached (rotateStep marshal) (rotateStarts marshal unmarshal dial cubeName velocity))\<^sup>*\<^sup>* start s \<and> at s = Back"
  with detached_inv_reachable [of "rotateStep marshal" "rotateStarts marshal unmarshal dial cubeName velocity" s]
  show "length (goroutines s) = length (getJointsForCube marshal unmarshal (dial 0) cubeName)"
    by (simp add: detached_inv_def length_rotateStarts)
qed


theorem rotateCubeJoints_returns_early_witness:
  "(detached (rotateStep (\<lambda>m :: int Message. Inr ''{}''))
      (rotateStarts (\<lambda>m :: int Message. Inr ''{}'') (\<lambda>raw. Inr [''joint_hinge_tail2_BASE_tail3_BASE''])
         (\<lambda>i. if i = 0 then Inr \<lparr>rd = [], wr = [None, None], sent = []\<rparr> else Inl ConnectFailure)
         ''tail3_BASE'' (- 3)))\<^sup>*\<^sup>*
     start
     \<lparr>at = Back, counter = 0,
      goroutines = [Running (RotateDial (Inl ConnectFailure) ''joint_hinge_tail2_BASE_tail3_BASE'' (- 3))]\<rparr> \<and>
   length (goroutines
     (\<lparr>at = Back, counter = 0,
       goroutines = [Running (RotateDial (Inl ConnectFailure) ''joint_hinge_tail2_BASE_tail3_BASE'' (- 3 :: int))]\<rparr>
        :: (int rotating, Conn option) batch))
     = length (getJointsForCube (\<lambda>m :: int Message. Inr ''{}'') (\<lambda>raw. Inr [''joint_hinge_tail2_BASE_tail3_BASE''])
         (Inr \<lparr>rd = [], wr = [None, None], sent = []\<rparr>) ''tail3_BASE'')"
proof -
  let ?m = "(\<lambda>m. Inr ''{}'') :: int Message \<Rightarrow> error + string"
  let ?um = "(\<lambda>raw. Inr [''joint_hinge_tail2_BASE_tail3_BASE'']) :: string \<Rightarrow> error + string list"
  let ?dial = "\<lambda>i::nat. if i = 0 then Inr \<lparr>rd = [], wr = [None, None], sent = []\<rparr> else Inl ConnectFailure"
  let ?u = "RotateDial (Inl ConnectFailure) ''joint_hinge_tail2_BASE_tail3_BASE'' (- 3 :: int)"
  let ?R = "rotateStarts ?m ?um ?dial ''tail3_BASE'' (- 3)"
  let ?s = "\<lparr>at = Back, counter = 0, goroutines = [Running ?u]\<rparr> :: (int rotating, Conn option) batch"
  have j: "getJointsForCube ?m ?um (?dial 0) ''tail3_BASE'' = [''joint_hinge_tail2_BASE_tail3_BASE'']"
    by (simp add: getJointsForCube_def Write_def sendJSONMessage_def readResponse_spec)
  then have R: "?R = [?u]" by (simp add: rotateStarts_def)
  have reach: "(detached (rotateStep ?m) ?R)\<^sup>*\<^sup>* start ?s"
    using detached_returns_early [of "rotateStep ?m" "[?u]"] unfolding R by simp
  from rotateCubeJoints_returns_early [of ?m ?um ?dial "''tail3_BASE''" "- 3",
      THEN conjunct2, rule_format, of ?s] reach
  have "length (goroutines ?s) = length (getJointsForCube ?m ?um (?dial 0) ''tail3_BASE'')"
    by simp
  with reach show ?thesis by simp
qed

end
